theory Spec2Isabelle
  imports Complex_Main "HOL-Library.Word" "HOL-Library.Log_Nat"
begin

unbundle bit_operations_syntax

section \<open>Node Buffer primitives\<close>

text \<open>
  A Node \<^verbatim>\<open>Buffer\<close> is a fixed-length array of bytes; the model is a list of
  8-bit words that keeps its length under every write.  JavaScript numbers that the code
  handles are integers of small magnitude and are modelled as \<^typ>\<open>int\<close>; on that range
  the operators \<^verbatim>\<open>^\<close>, \<^verbatim>\<open>&\<close> and \<^verbatim>\<open>>>\<close> agree with \<open>XOR\<close>, \<open>AND\<close> and
  \<open>drop_bit\<close> on \<^typ>\<open>int\<close>.

  The checked accessors (\<^verbatim>\<open>readUInt8\<close>, \<^verbatim>\<open>writeUInt16BE\<close>, ...) throw when the
  value does not fit or when the offset leaves the buffer; every throw is a branch
  \<open>Inl\<close> of the model.  The unchecked index \<^verbatim>\<open>buf[i]\<close> yields \<^verbatim>\<open>undefined\<close> out of
  range, which the bitwise operators read as 0.
\<close>

type_synonym byte = "8 word"

datatype error = RangeError | TypeError

definition newBuffer :: "(nat \<Rightarrow> byte) \<Rightarrow> nat \<Rightarrow> byte list" where
  \<comment> \<open>\<^verbatim>\<open>new Buffer(n)\<close>: \<open>n\<close> bytes of uninitialised memory, whose content is \<open>mem\<close>\<close>
  "newBuffer mem n = map mem [0..<n]"

definition byteAt :: "byte list \<Rightarrow> nat \<Rightarrow> int" where
  \<comment> \<open>\<^verbatim>\<open>buf[i]\<close> as an operand of a bitwise operator\<close>
  "byteAt buf i = (if i < length buf then uint (buf ! i) else 0)"

definition readUInt8 :: "byte list \<Rightarrow> int \<Rightarrow> error + int" where
  "readUInt8 buf off =
     (if 0 \<le> off \<and> off + 1 \<le> int (length buf) then Inr (uint (buf ! nat off))
      else Inl RangeError)"

definition readUInt16BE :: "byte list \<Rightarrow> int \<Rightarrow> error + int" where
  "readUInt16BE buf off =
     (if 0 \<le> off \<and> off + 2 \<le> int (length buf)
      then Inr (uint (buf ! nat off) * 256 + uint (buf ! (nat off + 1)))
      else Inl RangeError)"

definition readUInt16LE :: "byte list \<Rightarrow> int \<Rightarrow> error + int" where
  "readUInt16LE buf off =
     (if 0 \<le> off \<and> off + 2 \<le> int (length buf)
      then Inr (uint (buf ! nat off) + uint (buf ! (nat off + 1)) * 256)
      else Inl RangeError)"

definition writeUInt8 :: "byte list \<Rightarrow> int \<Rightarrow> int \<Rightarrow> error + byte list" where
  "writeUInt8 buf v off =
     (if v < 0 \<or> 255 < v then Inl TypeError
      else if 0 \<le> off \<and> off + 1 \<le> int (length buf)
      then Inr (buf[nat off := word_of_int v])
      else Inl RangeError)"

definition writeUInt16BE :: "byte list \<Rightarrow> int \<Rightarrow> int \<Rightarrow> error + byte list" where
  "writeUInt16BE buf v off =
     (if v < 0 \<or> 65535 < v then Inl TypeError
      else if 0 \<le> off \<and> off + 2 \<le> int (length buf)
      then Inr (buf[nat off := word_of_int (v div 256), nat off + 1 := word_of_int (v mod 256)])
      else Inl RangeError)"

definition writeUInt16LE :: "byte list \<Rightarrow> int \<Rightarrow> int \<Rightarrow> error + byte list" where
  "writeUInt16LE buf v off =
     (if v < 0 \<or> 65535 < v then Inl TypeError
      else if 0 \<le> off \<and> off + 2 \<le> int (length buf)
      then Inr (buf[nat off := word_of_int (v mod 256), nat off + 1 := word_of_int (v div 256)])
      else Inl RangeError)"

definition index :: "byte list \<Rightarrow> nat \<Rightarrow> int option" where
  \<comment> \<open>\<^verbatim>\<open>buf[i]\<close> as an operand of \<^verbatim>\<open>==\<close>: \<open>None\<close> is \<^verbatim>\<open>undefined\<close>, equal to no number\<close>
  "index buf i = (if i < length buf then Some (uint (buf ! i)) else None)"

definition slice :: "byte list \<Rightarrow> nat \<Rightarrow> nat \<Rightarrow> byte list" where
  \<comment> \<open>\<^verbatim>\<open>buf.slice(start, end)\<close> for non-negative bounds: both are clamped to the length\<close>
  "slice buf start end = drop start (take end buf)"

definition and_then :: "error + 'a \<Rightarrow> ('a \<Rightarrow> error + 'b) \<Rightarrow> error + 'b" where
  \<comment> \<open>sequencing of statements that may throw\<close>
  "and_then r f = (case r of Inl e \<Rightarrow> Inl e | Inr x \<Rightarrow> f x)"

text \<open>
  \<^verbatim>\<open>parseInt(x)\<close> of a number reads the integer at the start of the number's decimal
  text.  For \<open>x = 0\<close> and for \<open>10\<^sup>-\<^sup>6 \<le> \<bar>x\<bar> < 10\<^sup>2\<^sup>1\<close> the text is positional and the
  result is \<open>x\<close> truncated towards zero.  Outside that range the text is in exponent
  form, one digit before the point, and the result is the first significant digit with
  the sign of \<open>x\<close>.  The argument is taken as the number itself: the rounding of a value
  that no double represents is not modelled.
\<close>

definition first_digit :: "rat \<Rightarrow> int" where
  \<comment> \<open>the first significant decimal digit of a positive number\<close>
  "first_digit y =
     (if 1 \<le> y then \<lfloor>y\<rfloor> div 10 ^ (floorlog 10 (nat \<lfloor>y\<rfloor>) - 1)
      else
        let d = floorlog 10 (nat \<lfloor>1 / y\<rfloor>)
        in if 1 \<le> y * 10 ^ (d - 1) then 1 else \<lfloor>y * 10 ^ d\<rfloor>)"

definition parseInt :: "rat \<Rightarrow> int" where
  "parseInt x =
     (if x = 0 \<or> (1 / 10 ^ 6 \<le> \<bar>x\<bar> \<and> \<bar>x\<bar> < 10 ^ 21)
      then (if 0 \<le> x then \<lfloor>x\<rfloor> else \<lceil>x\<rceil>)
      else if 0 \<le> x then first_digit x else - first_digit (- x))"

section \<open>Checksum primitives\<close>

text \<open>
  \<^verbatim>\<open>_CRC16(buf, length)\<close>: the register starts at \<^verbatim>\<open>0xFFFF\<close>; each byte is XORed
  in and followed by eight shift steps.  \<open>crc_shift j crc\<close> is the register after \<open>j\<close>
  passes of the inner loop and \<open>crc_loop buf n\<close> the register after \<open>n\<close> passes of the
  outer loop.  The function then stores the register little-endian at offset
  \<^verbatim>\<open>length\<close> and returns it.
\<close>

primrec crc_shift :: "nat \<Rightarrow> int \<Rightarrow> int" where
  "crc_shift 0 crc = crc"
| "crc_shift (Suc j) crc =
     (let tmp = crc AND 0x0001;
          crc = drop_bit 1 crc
      in crc_shift j (if tmp \<noteq> 0 then crc XOR 0xA001 else crc))"

primrec crc_loop :: "byte list \<Rightarrow> nat \<Rightarrow> int" where
  "crc_loop buf 0 = 0xFFFF"
| "crc_loop buf (Suc i) = crc_shift 8 (crc_loop buf i XOR byteAt buf i)"

definition CRC16 :: "byte list \<Rightarrow> int \<Rightarrow> error + (byte list \<times> int)" where
  "CRC16 buf len =
     (let crc = crc_loop buf (nat len)
      in case writeUInt16LE buf crc len of
           Inl e \<Rightarrow> Inl e
         | Inr buf' \<Rightarrow> Inr (buf', crc))"

text \<open>
  \<^verbatim>\<open>_LRC(buf, length)\<close>: \<open>lrc_loop buf n\<close> is the running sum after \<open>n\<close> passes of the
  loop; the sum is not reduced before the final \<^verbatim>\<open>((lrc ^ 0xFF) + 1) & 0xFF\<close>.  The
  result is stored as one byte at offset \<^verbatim>\<open>length\<close> and returned.
\<close>

primrec lrc_loop :: "byte list \<Rightarrow> nat \<Rightarrow> int" where
  "lrc_loop buf 0 = 0"
| "lrc_loop buf (Suc i) = lrc_loop buf i + (byteAt buf i AND 0xFF)"

definition LRC :: "byte list \<Rightarrow> int \<Rightarrow> error + (byte list \<times> int)" where
  "LRC buf len =
     (let lrc = lrc_loop buf (nat len);
          lrc = ((lrc XOR 0xFF) + 1) AND 0xFF
      in case writeUInt8 buf lrc len of
           Inl e \<Rightarrow> Inl e
         | Inr buf' \<Rightarrow> Inr (buf', lrc))"

text \<open>\<^verbatim>\<open>calculateLrc(buf)\<close> of the ASCII port: the same sum over all bytes but the last.\<close>

definition calculateLrc :: "byte list \<Rightarrow> int" where
  "calculateLrc buf =
     (let len = int (length buf) - 1;
          lrc = lrc_loop buf (nat len)
      in ((lrc XOR 0xFF) + 1) AND 0xFF)"

section \<open>Response parsers\<close>

text \<open>
  The callback \<^verbatim>\<open>next\<close> is an opaque function of the caller, named here by a number;
  \<open>None\<close> is a missing callback.  A parser either throws or returns the calls it
  made: \<^verbatim>\<open>next(error)\<close> is \<open>Failure\<close>, \<^verbatim>\<open>next(null, result)\<close> is \<open>Success\<close>.
\<close>

type_synonym cont = nat

datatype message =
    DataLengthError int nat        \<comment> \<open>"Data length error, expected L got N"\<close>
  | UnexpectedDataError "int option" int  \<comment> \<open>"Unexpected data error, expected A got B"\<close>
  | CRCError                       \<comment> \<open>"CRC error"\<close>
  | LRCError                       \<comment> \<open>"LRC error"\<close>

datatype result =
    Coils "bool list" "byte list"      \<comment> \<open>\<^verbatim>\<open>{"data": contents, "buffer": ...}\<close> of FC 1, 2\<close>
  | Registers "int list" "byte list"   \<comment> \<open>\<^verbatim>\<open>{"data": contents, "buffer": ...}\<close> of FC 3, 4\<close>
  | CoilState int bool                 \<comment> \<open>\<^verbatim>\<open>{"address": ..., "state": ...}\<close>\<close>
  | RegisterValue int int              \<comment> \<open>\<^verbatim>\<open>{"address": ..., "value": ...}\<close>\<close>
  | RegistersWritten int int           \<comment> \<open>\<^verbatim>\<open>{"address": ..., "length": ...}\<close>\<close>

datatype arg = Failure message | Success result

type_synonym call = "cont \<times> arg"

definition call_next :: "cont option \<Rightarrow> arg \<Rightarrow> call list" where
  \<comment> \<open>\<^verbatim>\<open>if (next) next(...)\<close>\<close>
  "call_next nxt a = (case nxt of None \<Rightarrow> [] | Some k \<Rightarrow> [(k, a)])"

text \<open>
  \<^verbatim>\<open>_readFC2\<close>: \<open>bits_loop j reg\<close> is what \<open>j\<close> passes of the inner loop push, starting
  from \<open>reg\<close>; \<open>coils_loop data i\<close> is \<^verbatim>\<open>contents\<close> after \<open>i\<close> passes of the outer loop.
\<close>

primrec bits_loop :: "nat \<Rightarrow> int \<Rightarrow> bool list" where
  "bits_loop 0 reg = []"
| "bits_loop (Suc j) reg = ((reg AND 1) = 1) # bits_loop j (drop_bit 1 reg)"

primrec coils_loop :: "byte list \<Rightarrow> nat \<Rightarrow> bool list" where
  "coils_loop data 0 = []"
| "coils_loop data (Suc i) = coils_loop data i @ bits_loop 8 (byteAt data (i + 3))"

definition readFC2 :: "byte list \<Rightarrow> cont option \<Rightarrow> error + call list" where
  "readFC2 data nxt =
     and_then (readUInt8 data 2) (\<lambda>len.
       let contents = coils_loop data (nat len)
       in Inr (call_next nxt (Success (Coils contents (slice data 3 (3 + nat len))))))"

text \<open>\<^verbatim>\<open>_readFC4\<close>: the loop steps by 2 and every read is checked.\<close>

function regs_loop :: "byte list \<Rightarrow> int \<Rightarrow> int \<Rightarrow> int list \<Rightarrow> error + int list" where
  "regs_loop data len i contents =
     (if i < len
      then case readUInt16BE data (i + 3) of
             Inl e \<Rightarrow> Inl e
           | Inr reg \<Rightarrow> regs_loop data len (i + 2) (contents @ [reg])
      else Inr contents)"
  by pat_completeness auto
termination
  by (relation "measure (\<lambda>(data, len, i, contents). nat (len - i))") auto

definition readFC4 :: "byte list \<Rightarrow> cont option \<Rightarrow> error + call list" where
  "readFC4 data nxt =
     and_then (readUInt8 data 2) (\<lambda>len.
     and_then (regs_loop data len 0 []) (\<lambda>contents.
       Inr (call_next nxt (Success (Registers contents (slice data 3 (3 + nat len)))))))"

definition readFC5 :: "byte list \<Rightarrow> cont option \<Rightarrow> error + call list" where
  "readFC5 data nxt =
     and_then (readUInt16BE data 2) (\<lambda>dataAddress.
     and_then (readUInt16BE data 4) (\<lambda>state.
       Inr (call_next nxt (Success (CoilState dataAddress (state = 0xff00))))))"

definition readFC6 :: "byte list \<Rightarrow> cont option \<Rightarrow> error + call list" where
  "readFC6 data nxt =
     and_then (readUInt16BE data 2) (\<lambda>dataAddress.
     and_then (readUInt16BE data 4) (\<lambda>v.
       Inr (call_next nxt (Success (RegisterValue dataAddress v)))))"

definition readFC16 :: "byte list \<Rightarrow> cont option \<Rightarrow> error + call list" where
  "readFC16 data nxt =
     and_then (readUInt16BE data 2) (\<lambda>dataAddress.
     and_then (readUInt16BE data 4) (\<lambda>len.
       Inr (call_next nxt (Success (RegistersWritten dataAddress len)))))"

section \<open>The engine\<close>

text \<open>
  The fields of a \<^verbatim>\<open>ModbusRTU\<close> object.  \<^verbatim>\<open>null\<close> is \<open>None\<close>.  The field
  \<^verbatim>\<open>_ascii\<close> is read by every method; its value is a boolean or, when the property
  is absent, \<^verbatim>\<open>undefined\<close>.  The port is outside the record: what a method hands to
  \<^verbatim>\<open>this._port.write\<close> is part of its result.
\<close>

datatype jsbool = Undefined | JBool bool

definition strict_eq :: "jsbool \<Rightarrow> bool \<Rightarrow> bool" where
  \<comment> \<open>\<^verbatim>\<open>v === b\<close> for a boolean literal \<open>b\<close>\<close>
  "strict_eq v b = (v = JBool b)"

record engine =
  nextAddress :: "int option"
  nextCode :: "int option"
  nextLength :: int
  next_fn :: "cont option"
  unitID :: int
  ascii :: jsbool

definition ModbusRTU :: engine where
  \<comment> \<open>the constructor; it sets no \<^verbatim>\<open>_ascii\<close>\<close>
  "ModbusRTU =
     \<lparr>nextAddress = None, nextCode = None, nextLength = 0, next_fn = None, unitID = 1,
      ascii = Undefined\<rparr>"

subsection \<open>The data handler registered by open\<close>

text \<open>
  The handler works on the buffer it is given: the checksum functions store into it.  Its
  outcome is the engine afterwards, the buffer afterwards, the calls of \<^verbatim>\<open>next\<close>
  it made and the exception it threw, if any.
\<close>

record outcome =
  engine_of :: engine
  data_of :: "byte list"
  calls :: "call list"
  thrown :: "error option"

definition finish :: "engine \<Rightarrow> byte list \<Rightarrow> error + call list \<Rightarrow> outcome" where
  "finish modbus data r =
     (case r of
        Inl e \<Rightarrow> \<lparr>engine_of = modbus, data_of = data, calls = [], thrown = Some e\<rparr>
      | Inr cs \<Rightarrow> \<lparr>engine_of = modbus, data_of = data, calls = cs, thrown = None\<rparr>)"

definition parse :: "byte list \<Rightarrow> int \<Rightarrow> cont option \<Rightarrow> error + call list" where
  \<comment> \<open>the five tests on \<^verbatim>\<open>code\<close> exclude each other, so at most one parser runs\<close>
  "parse data code nxt =
     (if code = 2 \<or> code = 1 then readFC2 data nxt
      else if code = 4 \<or> code = 3 then readFC4 data nxt
      else if code = 5 then readFC5 data nxt
      else if code = 6 then readFC6 data nxt
      else if code = 16 then readFC16 data nxt
      else Inr [])"

definition on_data :: "engine \<Rightarrow> byte list \<Rightarrow> outcome" where
  "on_data modbus data =
     (let len = nextLength modbus;
          nxt = next_fn modbus
      in if int (length data) \<noteq> len
         then finish modbus data
                (Inr (call_next nxt (Failure (DataLengthError len (length data)))))
         else
           (case readUInt8 data 0 of
              Inl e \<Rightarrow> finish modbus data (Inl e)
            | Inr address \<Rightarrow>
           (case readUInt8 data 1 of
              Inl e \<Rightarrow> finish modbus data (Inl e)
            | Inr code \<Rightarrow>
           if Some address \<noteq> nextAddress modbus \<or> Some code \<noteq> nextCode modbus
           then finish modbus data
                  (Inr (call_next nxt (Failure (UnexpectedDataError (nextAddress modbus) address))))
           else
             let modbus = modbus\<lparr>nextAddress := None\<rparr>;
                 modbus = modbus\<lparr>nextCode := None\<rparr>;
                 modbus = modbus\<lparr>next_fn := None\<rparr>
             in if strict_eq (ascii modbus) False
                then
                  (case readUInt16LE data (len - 2) of
                     Inl e \<Rightarrow> finish modbus data (Inl e)
                   | Inr crcIn \<Rightarrow>
                  (case CRC16 data (len - 2) of
                     Inl e \<Rightarrow> finish modbus data (Inl e)
                   | Inr (data, crc) \<Rightarrow>
                  if crcIn \<noteq> crc
                  then finish modbus data (Inr (call_next nxt (Failure CRCError)))
                  else finish modbus data (parse data code nxt)))
                else
                  (case readUInt8 data (int (length data) - 1) of
                     Inl e \<Rightarrow> finish modbus data (Inl e)
                   | Inr lrcIn \<Rightarrow>
                  (case LRC data (int (length data) - 1) of
                     Inl e \<Rightarrow> finish modbus data (Inl e)
                   | Inr (data, lrc) \<Rightarrow>
                  if lrcIn \<noteq> lrc
                  then finish modbus data (Inr (call_next nxt (Failure LRCError)))
                  else finish modbus data (parse data code nxt))))))"

subsection \<open>The write paths\<close>

text \<open>
  The text of the five write methods does not parse as it stands.  Each of them has, twice,
  the shape
  \<^verbatim>\<open>if (this._ascii === false) { A } else {} B }\<close>
  where the last brace has no partner (once around the expected length, once around
  \<^verbatim>\<open>new Buffer\<close>).  A program results from either of two repairs by one token:
  \<^item> \<open>DropOrphanBrace\<close>: the brace without partner is removed; the else block stays
    empty and \<open>B\<close> runs in every mode, after \<open>A\<close> when the field is \<^verbatim>\<open>false\<close>;
  \<^item> \<open>OpenElseBlock\<close>: the brace that closes the empty else block is removed; \<open>B\<close> is
    the else branch and does not run when the field is \<^verbatim>\<open>false\<close>.
  The source does not say which is meant, so every write path takes the repair as a
  parameter; the two agree whenever the field is not \<^verbatim>\<open>false\<close>.  Nothing else of the
  methods is changed: they are transcribed statement by statement.  A method returns the
  engine as the statements before the first throw left it, and either the exception or
  the buffer passed to \<^verbatim>\<open>this._port.write\<close>.
\<close>

datatype repair = DropOrphanBrace | OpenElseBlock

definition set_nextLength :: "repair \<Rightarrow> engine \<Rightarrow> int \<Rightarrow> int \<Rightarrow> engine" where
  \<comment> \<open>\<^verbatim>\<open>if (this._ascii === false) { this._nextLength = A; } else {} this._nextLength = B; }\<close>\<close>
  "set_nextLength rep this A B =
     (case rep of
        DropOrphanBrace \<Rightarrow>
          let this = (if strict_eq (ascii this) False then this\<lparr>nextLength := A\<rparr> else this)
          in this\<lparr>nextLength := B\<rparr>
      | OpenElseBlock \<Rightarrow>
          if strict_eq (ascii this) False then this\<lparr>nextLength := A\<rparr>
          else this\<lparr>nextLength := B\<rparr>)"

definition alloc_buf :: "repair \<Rightarrow> (nat \<Rightarrow> byte) \<Rightarrow> engine \<Rightarrow> nat \<Rightarrow> byte list" where
  \<comment> \<open>\<^verbatim>\<open>if (this._ascii === false) { var buf = new Buffer(codeLength + 2); } else {}
      var buf = new Buffer(codeLength + 1); }\<close>\<close>
  "alloc_buf rep mem this codeLength =
     (case rep of
        DropOrphanBrace \<Rightarrow>
          let buf = (if strict_eq (ascii this) False then newBuffer mem (codeLength + 2) else [])
          in newBuffer mem (codeLength + 1)
      | OpenElseBlock \<Rightarrow>
          if strict_eq (ascii this) False then newBuffer mem (codeLength + 2)
          else newBuffer mem (codeLength + 1))"

definition default_code :: "int option \<Rightarrow> int \<Rightarrow> int" where
  \<comment> \<open>\<^verbatim>\<open>if (!code) code = d\<close>: a missing argument and 0 are falsy\<close>
  "default_code code d = (case code of None \<Rightarrow> d | Some c \<Rightarrow> if c = 0 then d else c)"

definition checksum :: "engine \<Rightarrow> byte list \<Rightarrow> int \<Rightarrow> error + byte list" where
  \<comment> \<open>\<^verbatim>\<open>if (this._ascii === true) _CRC16(buf, codeLength); else _LRC(buf, codeLength);\<close>\<close>
  "checksum this buf codeLength =
     (if strict_eq (ascii this) True
      then and_then (CRC16 buf codeLength) (\<lambda>(buf, crc). Inr buf)
      else and_then (LRC buf codeLength) (\<lambda>(buf, lrc). Inr buf))"

definition writeFC2 ::
  "repair \<Rightarrow> (nat \<Rightarrow> byte) \<Rightarrow> engine \<Rightarrow> int \<Rightarrow> int \<Rightarrow> int \<Rightarrow> cont option \<Rightarrow> int option
     \<Rightarrow> engine \<times> (error + byte list)" where
  "writeFC2 rep mem this address dataAddress len nxt code =
     (let code = default_code code 2;
          this = this\<lparr>nextAddress := Some address\<rparr>;
          this = this\<lparr>nextCode := Some code\<rparr>;
          this = set_nextLength rep this
                   (3 + parseInt ((of_int len - 1) / 8 + 1) + 2)
                   (3 + parseInt ((of_int len - 1) / 8 + 1) + 1);
          this = this\<lparr>next_fn := nxt\<rparr>;
          codeLength = 6;
          buf = alloc_buf rep mem this codeLength
      in (this,
          and_then (writeUInt8 buf address 0) (\<lambda>buf.
          and_then (writeUInt8 buf code 1) (\<lambda>buf.
          and_then (writeUInt16BE buf dataAddress 2) (\<lambda>buf.
          and_then (writeUInt16BE buf len 4) (\<lambda>buf.
          checksum this buf (int codeLength)))))))"

definition writeFC1 ::
  "repair \<Rightarrow> (nat \<Rightarrow> byte) \<Rightarrow> engine \<Rightarrow> int \<Rightarrow> int \<Rightarrow> int \<Rightarrow> cont option
     \<Rightarrow> engine \<times> (error + byte list)" where
  "writeFC1 rep mem this address dataAddress len nxt =
     writeFC2 rep mem this address dataAddress len nxt (Some 1)"

definition writeFC4 ::
  "repair \<Rightarrow> (nat \<Rightarrow> byte) \<Rightarrow> engine \<Rightarrow> int \<Rightarrow> int \<Rightarrow> int \<Rightarrow> cont option \<Rightarrow> int option
     \<Rightarrow> engine \<times> (error + byte list)" where
  "writeFC4 rep mem this address dataAddress len nxt code =
     (let code = default_code code 4;
          this = this\<lparr>nextAddress := Some address\<rparr>;
          this = this\<lparr>nextCode := Some code\<rparr>;
          this = set_nextLength rep this (3 + 2 * len + 2) (3 + 2 * len + 1);
          this = this\<lparr>next_fn := nxt\<rparr>;
          codeLength = 6;
          buf = alloc_buf rep mem this codeLength
      in (this,
          and_then (writeUInt8 buf address 0) (\<lambda>buf.
          and_then (writeUInt8 buf code 1) (\<lambda>buf.
          and_then (writeUInt16BE buf dataAddress 2) (\<lambda>buf.
          and_then (writeUInt16BE buf len 4) (\<lambda>buf.
          checksum this buf (int codeLength)))))))"

definition writeFC3 ::
  "repair \<Rightarrow> (nat \<Rightarrow> byte) \<Rightarrow> engine \<Rightarrow> int \<Rightarrow> int \<Rightarrow> int \<Rightarrow> cont option
     \<Rightarrow> engine \<times> (error + byte list)" where
  "writeFC3 rep mem this address dataAddress len nxt =
     writeFC4 rep mem this address dataAddress len nxt (Some 3)"

definition writeFC5 ::
  "repair \<Rightarrow> (nat \<Rightarrow> byte) \<Rightarrow> engine \<Rightarrow> int \<Rightarrow> int \<Rightarrow> bool \<Rightarrow> cont option
     \<Rightarrow> engine \<times> (error + byte list)" where
  "writeFC5 rep mem this address dataAddress state nxt =
     (let code = 5;
          this = this\<lparr>nextAddress := Some address\<rparr>;
          this = this\<lparr>nextCode := Some code\<rparr>;
          this = this\<lparr>nextLength := 8\<rparr>;
          this = set_nextLength rep this 8 7;
          this = this\<lparr>next_fn := nxt\<rparr>;
          codeLength = 6;
          buf = alloc_buf rep mem this codeLength
      in (this,
          and_then (writeUInt8 buf address 0) (\<lambda>buf.
          and_then (writeUInt8 buf code 1) (\<lambda>buf.
          and_then (writeUInt16BE buf dataAddress 2) (\<lambda>buf.
          and_then (if state then writeUInt16BE buf 0xff00 4 else writeUInt16BE buf 0x0000 4)
            (\<lambda>buf.
          checksum this buf (int codeLength)))))))"

definition writeFC6 ::
  "repair \<Rightarrow> (nat \<Rightarrow> byte) \<Rightarrow> engine \<Rightarrow> int \<Rightarrow> int \<Rightarrow> int \<Rightarrow> cont option
     \<Rightarrow> engine \<times> (error + byte list)" where
  "writeFC6 rep mem this address dataAddress v nxt =
     (let code = 6;
          this = this\<lparr>nextAddress := Some address\<rparr>;
          this = this\<lparr>nextCode := Some code\<rparr>;
          this = set_nextLength rep this 8 7;
          this = this\<lparr>next_fn := nxt\<rparr>;
          codeLength = 6;
          buf = alloc_buf rep mem this codeLength
      in (this,
          and_then (writeUInt8 buf address 0) (\<lambda>buf.
          and_then (writeUInt8 buf code 1) (\<lambda>buf.
          and_then (writeUInt16BE buf dataAddress 2) (\<lambda>buf.
          and_then (writeUInt16BE buf v 4) (\<lambda>buf.
          checksum this buf (int codeLength)))))))"

text \<open>
  \<^verbatim>\<open>writeFC16\<close>: \<open>write_array array i buf\<close> is the buffer after \<open>i\<close> passes of the loop
  that stores the register values (\<open>i\<close> never exceeds the length of the array).
\<close>

primrec write_array :: "int list \<Rightarrow> nat \<Rightarrow> byte list \<Rightarrow> error + byte list" where
  "write_array array 0 buf = Inr buf"
| "write_array array (Suc i) buf =
     and_then (write_array array i buf) (\<lambda>buf. writeUInt16BE buf (array ! i) (7 + 2 * int i))"

definition writeFC16 ::
  "repair \<Rightarrow> (nat \<Rightarrow> byte) \<Rightarrow> engine \<Rightarrow> int \<Rightarrow> int \<Rightarrow> int list \<Rightarrow> cont option
     \<Rightarrow> engine \<times> (error + byte list)" where
  "writeFC16 rep mem this address dataAddress array nxt =
     (let code = 16;
          this = this\<lparr>nextAddress := Some address\<rparr>;
          this = this\<lparr>nextCode := Some code\<rparr>;
          this = set_nextLength rep this 8 7;
          this = this\<lparr>next_fn := nxt\<rparr>;
          codeLength = 7 + 2 * length array;
          buf = alloc_buf rep mem this codeLength
      in (this,
          and_then (writeUInt8 buf address 0) (\<lambda>buf.
          and_then (writeUInt8 buf code 1) (\<lambda>buf.
          and_then (writeUInt16BE buf dataAddress 2) (\<lambda>buf.
          and_then (writeUInt16BE buf (int (length array)) 4) (\<lambda>buf.
          and_then (writeUInt8 buf (int (length array) * 2) 6) (\<lambda>buf.
          and_then (write_array array (length array) buf) (\<lambda>buf.
          checksum this buf (int codeLength)))))))))"

text \<open>
  The engines that the constructor and the methods above can produce, whatever the
  repair, the arguments and what arrives.
\<close>

inductive reachable :: "engine \<Rightarrow> bool" where
  constructed: "reachable ModbusRTU"
| after_writeFC1: "reachable this \<Longrightarrow> reachable (fst (writeFC1 rep mem this a d n k))"
| after_writeFC2: "reachable this \<Longrightarrow> reachable (fst (writeFC2 rep mem this a d n k c))"
| after_writeFC3: "reachable this \<Longrightarrow> reachable (fst (writeFC3 rep mem this a d n k))"
| after_writeFC4: "reachable this \<Longrightarrow> reachable (fst (writeFC4 rep mem this a d n k c))"
| after_writeFC5: "reachable this \<Longrightarrow> reachable (fst (writeFC5 rep mem this a d s k))"
| after_writeFC6: "reachable this \<Longrightarrow> reachable (fst (writeFC6 rep mem this a d v k))"
| after_writeFC16: "reachable this \<Longrightarrow> reachable (fst (writeFC16 rep mem this a d vs k))"
| after_data: "reachable this \<Longrightarrow> reachable (engine_of (on_data this data))"

section \<open>The buffered ASCII port\<close>

subsection \<open>Transcoding\<close>

text \<open>
  Text written into a buffer is ASCII; a character is the byte of its code.
  \<^verbatim>\<open>buf.toString('hex').toUpperCase()\<close> yields two digits per byte, the high nibble
  first, from \<^verbatim>\<open>0123456789ABCDEF\<close>.  \<^verbatim>\<open>bufAscii.write(string, offset)\<close> stores the
  characters that fit from \<^verbatim>\<open>offset\<close> on.
\<close>

definition hex_digit :: "byte \<Rightarrow> byte" where
  "hex_digit d = of_char (''0123456789ABCDEF'' ! unat d)"

definition to_hex_upper :: "byte list \<Rightarrow> byte list" where
  "to_hex_upper buf = concat (map (\<lambda>b. [hex_digit (drop_bit 4 b), hex_digit (b AND 0x0F)]) buf)"

definition write_string :: "byte list \<Rightarrow> byte list \<Rightarrow> nat \<Rightarrow> byte list" where
  "write_string buf str off =
     take off buf @ take (length buf - off) str @ drop (off + length str) buf"

definition asciiEncodeRequestBuffer :: "(nat \<Rightarrow> byte) \<Rightarrow> byte list \<Rightarrow> byte list" where
  "asciiEncodeRequestBuffer mem buf =
     (let bufAscii = newBuffer mem (length buf * 2 + 3);
          bufAscii = write_string bufAscii [of_char CHR '':''] 0;
          bufAscii = write_string bufAscii (to_hex_upper buf) 1;
          bufAscii = write_string bufAscii [of_char CHR 0x0D] (length bufAscii - 2);
          bufAscii = write_string bufAscii [of_char CHR 0x0A] (length bufAscii - 1)
      in bufAscii)"

text \<open>
  \<^verbatim>\<open>bufDecoded.write(two characters, i, 1, 'hex')\<close> stores the byte that the two digits
  denote, in either case of the letters; when one of them is no hexadecimal digit it
  stores nothing and the byte keeps the content of the fresh buffer.
\<close>

definition unhex :: "byte \<Rightarrow> byte option" where
  "unhex c =
     (if 0x30 \<le> c \<and> c \<le> 0x39 then Some (c - 0x30)
      else if 0x41 \<le> c \<and> c \<le> 0x46 then Some (c - 0x41 + 10)
      else if 0x61 \<le> c \<and> c \<le> 0x66 then Some (c - 0x61 + 10)
      else None)"

definition hex_write :: "byte list \<Rightarrow> byte \<Rightarrow> byte \<Rightarrow> nat \<Rightarrow> byte list" where
  "hex_write buf c1 c2 off =
     (case (unhex c1, unhex c2) of
        (Some a, Some b) \<Rightarrow> if off < length buf then buf[off := push_bit 4 a OR b] else buf
      | _ \<Rightarrow> buf)"

text \<open>
  \<^verbatim>\<open>asciiDecodeResponseBuffer\<close>: for a buffer of \<open>len\<close> bytes the decoded buffer has
  \<open>(len - 3) / 2\<close> bytes, rounded down, and the loop runs while \<open>i < (len - 3) / 2\<close>,
  that is \<open>(len - 2) div 2\<close> times; both reads of a pass are inside \<open>bufAscii\<close>.  For an
  even \<open>len\<close> the last pass addresses the position just past the decoded buffer and
  stores nothing.  \<open>decode_loop bufAscii i bufDecoded\<close> is the decoded buffer after \<open>i\<close>
  passes.  With fewer than 3 bytes the size asked of \<^verbatim>\<open>new Buffer\<close> is negative, which
  it rejects.
\<close>

primrec decode_loop :: "byte list \<Rightarrow> nat \<Rightarrow> byte list \<Rightarrow> byte list" where
  "decode_loop bufAscii 0 bufDecoded = bufDecoded"
| "decode_loop bufAscii (Suc i) bufDecoded =
     hex_write (decode_loop bufAscii i bufDecoded)
       (bufAscii ! (i * 2 + 1)) (bufAscii ! (i * 2 + 2)) i"

definition asciiDecodeResponseBuffer :: "(nat \<Rightarrow> byte) \<Rightarrow> byte list \<Rightarrow> error + byte list" where
  "asciiDecodeResponseBuffer mem bufAscii =
     (if length bufAscii < 3 then Inl RangeError
      else
        let bufDecoded = newBuffer mem ((length bufAscii - 3) div 2)
        in Inr (decode_loop bufAscii ((length bufAscii - 2) div 2) bufDecoded))"

subsection \<open>The port\<close>

record port =
  port_buffer :: "byte list"
  port_id :: int
  port_cmd :: int
  port_length :: int

definition AsciiBufferedPort :: port where
  "AsciiBufferedPort = \<lparr>port_buffer = [], port_id = 0, port_cmd = 0, port_length = 0\<rparr>"

definition checkData :: "port \<Rightarrow> byte list \<Rightarrow> error + bool" where
  "checkData modbus buf =
     and_then (readUInt8 buf (int (length buf) - 1)) (\<lambda>lrcIn.
       Inr (index buf 0 = Some (port_id modbus) \<and>
            index buf 1 = Some (port_cmd modbus) \<and>
            lrcIn = calculateLrc buf))"

text \<open>
  \<^verbatim>\<open>AsciiBufferedPort.prototype.write\<close> returns the port and what it hands to the
  serial client: nothing for a request shorter than 5 bytes.
\<close>

definition port_write ::
  "(nat \<Rightarrow> byte) \<Rightarrow> port \<Rightarrow> byte list \<Rightarrow> port \<times> (error + byte list option)" where
  "port_write mem this data =
     (if length data < 5 then (this, Inr None)
      else
        let this = this\<lparr>port_id := uint (data ! 0)\<rparr>;
            this = this\<lparr>port_cmd := uint (data ! 1)\<rparr>;
            sent = Inr (Some (asciiEncodeRequestBuffer mem data))
        in if port_cmd this = 1 \<or> port_cmd this = 2 then
             (case readUInt16BE data 4 of
                Inl e \<Rightarrow> (this, Inl e)
              | Inr len \<Rightarrow>
                  (this\<lparr>port_length := (3 + parseInt ((of_int len - 1) / 8 + 1) + 2) * 2 + 1\<rparr>,
                   sent))
           else if port_cmd this = 3 \<or> port_cmd this = 4 then
             (case readUInt16BE data 4 of
                Inl e \<Rightarrow> (this, Inl e)
              | Inr len \<Rightarrow> (this\<lparr>port_length := (3 + 2 * len + 2) * 2 + 1\<rparr>, sent))
           else if port_cmd this = 5 \<or> port_cmd this = 6 \<or> port_cmd this = 16 then
             (this\<lparr>port_length := (6 + 2) * 2 + 1\<rparr>, sent)
           else (this\<lparr>port_length := 0\<rparr>, sent))"

text \<open>
  The handler of the client's data event.  \<open>scan mem modbus len i emitted\<close> is the
  \<^verbatim>\<open>for\<close> loop from position \<open>i\<close> on, with the frames emitted so far: a window that
  passes \<^verbatim>\<open>checkData\<close> is emitted after \<^verbatim>\<open>i = i + length\<close>, and the loop's own
  \<^verbatim>\<open>i++\<close> follows.  The loop is entered only with an expected length of 6 or more, so
  that length is a natural number here.  The result is the final \<open>i\<close> and the emitted
  frames in order.
\<close>

function scan ::
  "(nat \<Rightarrow> byte) \<Rightarrow> port \<Rightarrow> nat \<Rightarrow> nat \<Rightarrow> byte list list \<Rightarrow> error + (nat \<times> byte list list)" where
  "scan mem modbus len i emitted =
     (let bufferLength = length (port_buffer modbus)
      in if int i < int bufferLength - int len + 1 then
           let data = slice (port_buffer modbus) i (i + len)
           in if int (length data) = port_length modbus then
                case asciiDecodeResponseBuffer mem data of
                  Inl e \<Rightarrow> Inl e
                | Inr decodedData \<Rightarrow>
                    (case checkData modbus decodedData of
                       Inl e \<Rightarrow> Inl e
                     | Inr ok \<Rightarrow>
                         if ok then scan mem modbus len (i + len + 1) (emitted @ [decodedData])
                         else scan mem modbus len (i + 1) emitted)
              else scan mem modbus len (i + 1) emitted
         else Inr (i, emitted))"
  by pat_completeness auto
termination
  by (relation "measure (\<lambda>(mem, modbus, len, i, emitted). length (port_buffer modbus) + 1 - i)")
     auto

definition port_on_data ::
  "(nat \<Rightarrow> byte) \<Rightarrow> port \<Rightarrow> byte list \<Rightarrow> port \<times> (error + byte list list)" where
  "port_on_data mem modbus data =
     (let modbus = modbus\<lparr>port_buffer := port_buffer modbus @ data\<rparr>;
          len = port_length modbus;
          bufferLength = length (port_buffer modbus)
      in if bufferLength < 6 \<or> len < 6 then (modbus, Inr [])
         else
           case scan mem modbus (nat len) 0 [] of
             Inl e \<Rightarrow> (modbus, Inl e)
           | Inr (i, emitted) \<Rightarrow>
               ((if i \<noteq> 0
                 then modbus\<lparr>port_buffer := drop i (port_buffer modbus)\<rparr>
                 else modbus),
                Inr emitted))"

section \<open>What the specification says\<close>

text \<open>
  The specification's LRC: sum the bytes \<open>bytes[0..length)\<close> modulo 256, XOR with
  \<^verbatim>\<open>0xFF\<close>, add 1, mask to 8 bits.
\<close>

definition lrc_spec :: "byte list \<Rightarrow> nat \<Rightarrow> int" where
  "lrc_spec bytes n = (((sum_list (map uint (take n bytes)) mod 256) XOR 0xFF) + 1) AND 0xFF"

text \<open>
  The specification's \<open>hex(rawFrame, uppercase)\<close>: two characters per byte, the digit of
  the high nibble and the digit of the low nibble.
\<close>

definition uppercase_hex :: "byte list \<Rightarrow> string" where
  "uppercase_hex frame =
     concat (map (\<lambda>b. [''0123456789ABCDEF'' ! (unat b div 16),
                        ''0123456789ABCDEF'' ! (unat b mod 16)]) frame)"

text \<open>
  Auxiliary notions for stating the claims about the data handler: the engine after the
  three assignments under the comment \<^verbatim>\<open>data is OK - clear state variables\<close>, and
  whether the checksum stored at the end of a frame is the one the engine computes for
  it in its mode.
\<close>

definition cleared :: "engine \<Rightarrow> engine" where
  "cleared modbus = modbus\<lparr>nextAddress := None, nextCode := None, next_fn := None\<rparr>"

definition stored_checksum_matches :: "engine \<Rightarrow> byte list \<Rightarrow> bool" where
  "stored_checksum_matches modbus data =
     (if strict_eq (ascii modbus) False
      then uint (data ! (length data - 2)) + uint (data ! (length data - 1)) * 256 =
             crc_loop data (length data - 2)
      else uint (data ! (length data - 1)) = lrc_spec data (length data - 1))"

definition passes_checks :: "engine \<Rightarrow> byte list \<Rightarrow> bool" where
  \<comment> \<open>the length test and the address and code test of the handler both pass\<close>
  "passes_checks modbus data =
     (int (length data) = nextLength modbus \<and> 2 \<le> length data \<and>
      Some (uint (data ! 0)) = nextAddress modbus \<and> Some (uint (data ! 1)) = nextCode modbus)"

text \<open>
  The specification's expected response lengths for function codes 1 and 2:
  \<open>3 + ceil(bitCount/8) + 2\<close> in binary mode and
  \<open>2\<times>(3 + ceil((bitCount-1)/8 + 1)) + 3\<close> in ASCII mode.
\<close>

definition spec_binary_length :: "int \<Rightarrow> int" where
  "spec_binary_length bitCount = 3 + \<lceil>rat_of_int bitCount / 8\<rceil> + 2"

definition spec_ascii_length :: "int \<Rightarrow> int" where
  "spec_ascii_length bitCount = 2 * (3 + \<lceil>(rat_of_int bitCount - 1) / 8 + 1\<rceil>) + 3"

text \<open>
  The specification's request frames: a 6-byte core \<open>unitAddress, functionCode, hi(param1),
  lo(param1), hi(param2), lo(param2)\<close>, which function 16 extends with the byte count and the
  register payload, followed in ASCII framing by the LRC over the core.
\<close>

definition be16 :: "int \<Rightarrow> byte list" where
  "be16 v = [word_of_int (v div 256), word_of_int (v mod 256)]"

definition core6 :: "int \<Rightarrow> int \<Rightarrow> int \<Rightarrow> int \<Rightarrow> byte list" where
  "core6 unitAddress functionCode param1 param2 =
     [word_of_int unitAddress, word_of_int functionCode] @ be16 param1 @ be16 param2"

definition core16 :: "int \<Rightarrow> int \<Rightarrow> int list \<Rightarrow> byte list" where
  "core16 unitAddress dataAddress vs =
     core6 unitAddress 16 dataAddress (int (length vs)) @
     [word_of_int (int (length vs) * 2)] @ concat (map be16 vs)"

definition with_lrc :: "byte list \<Rightarrow> byte list" where
  "with_lrc core = core @ [word_of_int (lrc_spec core (length core))]"

definition with_crc16 :: "byte list \<Rightarrow> byte list" where
  "with_crc16 core =
     core @ [word_of_int (crc_loop core (length core) mod 256),
             word_of_int (crc_loop core (length core) div 256)]"

section \<open>Arithmetic of the LRC\<close>

lemma and_255_mod: "(k::int) AND 255 = k mod 256"
proof -
  have "k AND mask 8 = k mod 2 ^ 8"
    by (simp only: take_bit_eq_mask [symmetric] take_bit_eq_mod)
  then show ?thesis by (simp add: mask_eq_exp_minus_1)
qed

lemma xor_255_mod: "((k::int) XOR 255) mod 256 = 255 - k mod 256"
proof -
  have "take_bit 8 (k XOR 255) = take_bit 8 k XOR take_bit 8 (255::int)"
    by (rule take_bit_xor)
  also have "take_bit 8 (255::int) = take_bit 8 (- 1 :: int)"
    by (simp add: take_bit_eq_mod)
  also have "take_bit 8 k XOR take_bit 8 (- 1 :: int) = take_bit 8 (k XOR - 1)"
    by (rule take_bit_xor [symmetric])
  also have "\<dots> = mask 8 - take_bit 8 k"
    by (simp only: bit.xor_one_right take_bit_not_eq_mask_diff)
  finally show ?thesis
    by (simp add: take_bit_eq_mod mask_eq_exp_minus_1)
qed

lemma lrc_final: "(((k::int) XOR 255) + 1) AND 255 = (- k) mod 256"
proof -
  have "((k XOR 255) + 1) AND 255 = ((k XOR 255) mod 256 + 1) mod 256"
    by (simp add: and_255_mod mod_add_left_eq)
  also have "\<dots> = (256 - k mod 256) mod 256"
    by (simp add: xor_255_mod)
  also have "\<dots> = (- k) mod 256"
    by (metis mod_diff_right_eq mod_self diff_0 mod_diff_left_eq)
  finally show ?thesis .
qed

lemma byteAt_and: "byteAt buf i AND 255 = byteAt buf i"
proof -
  have "0 \<le> byteAt buf i" "byteAt buf i < 256"
    using uint_lt2p [of "buf ! i"] by (auto simp: byteAt_def)
  then show ?thesis by (simp add: and_255_mod)
qed

lemma lrc_loop_sum: "n \<le> length buf \<Longrightarrow> lrc_loop buf n = sum_list (map uint (take n buf))"
  by (induction n) (simp_all add: byteAt_and take_Suc_conv_app_nth, simp add: byteAt_def)

lemma lrc_loop_update: "n \<le> m \<Longrightarrow> lrc_loop (buf[m := x]) n = lrc_loop buf n"
  by (induction n) (simp_all add: byteAt_def)

lemma lrc_loop_take: "n \<le> m \<Longrightarrow> lrc_loop (take m buf) n = lrc_loop buf n"
  by (induction n) (simp_all add: byteAt_def)

lemma lrc_spec_eq: "lrc_spec buf n = (- sum_list (map uint (take n buf))) mod 256"
  by (simp add: lrc_spec_def lrc_final mod_minus_eq)

lemma lrc_spec_range: "0 \<le> lrc_spec buf n \<and> lrc_spec buf n \<le> 255"
  by (simp add: lrc_spec_eq)

lemma lrc_value: "((lrc_loop buf n XOR 255) + 1) AND 255 = (- lrc_loop buf n) mod 256"
  by (rule lrc_final)

lemma LRC_eq:
  assumes "0 \<le> len" "len < int (length buf)"
  shows "LRC buf len =
    Inr (buf[nat len := word_of_int (lrc_spec buf (nat len))], lrc_spec buf (nat len))"
proof -
  have "nat len \<le> length buf" using assms by linarith
  then have "((lrc_loop buf (nat len) XOR 255) + 1) AND 255 = lrc_spec buf (nat len)"
    by (simp add: lrc_loop_sum lrc_final lrc_spec_eq)
  then show ?thesis
    using assms lrc_spec_range [of buf "nat len"]
    by (simp add: LRC_def Let_def writeUInt8_def)
qed

section \<open>Hexadecimal transcoding\<close>

lemma low_nibble_take_bit: "(b :: byte) AND 0x0F = take_bit 4 b"
proof -
  have "(0x0F :: byte) = mask 4" by (simp add: mask_eq_exp_minus_1)
  then show ?thesis by (simp only: take_bit_eq_mask)
qed

lemma nibbles_join: "push_bit 4 (drop_bit 4 b) OR (b AND 0x0F) = (b :: byte)"
  unfolding low_nibble_take_bit
  by (rule bit_eqI) (auto simp: bit_simps)

lemma unat_high_nibble: "unat (drop_bit 4 (b :: byte)) = unat b div 16"
  by (simp add: drop_bit_eq_div unat_div)

lemma unat_low_nibble: "unat ((b :: byte) AND 0x0F) = unat b mod 16"
  unfolding low_nibble_take_bit by (simp add: take_bit_eq_mod unat_mod)

lemma unhex_hex_digit_all:
  "\<forall>n\<in>set [0..<16]. unhex (hex_digit (of_nat n)) = Some (of_nat n)"
  by code_simp

lemma unhex_hex_digit: "unat d < 16 \<Longrightarrow> unhex (hex_digit d) = Some d"
  using unhex_hex_digit_all [rule_format, of "unat d"] by simp

lemma nibble_less: "unat (b :: byte) div 16 < 16" "unat (b :: byte) mod 16 < 16"
  using unsigned_less [of b, where 'a = nat] by simp_all

lemma hex_write_digits:
  "hex_write buf (hex_digit (drop_bit 4 b)) (hex_digit (b AND 0x0F)) i = buf[i := b]"
  by (simp add: hex_write_def unhex_hex_digit unat_high_nibble unat_low_nibble nibble_less
      nibbles_join list_update_beyond)

lemma length_to_hex_upper: "length (to_hex_upper buf) = 2 * length buf"
  by (induction buf) (simp_all add: to_hex_upper_def)

lemma to_hex_upper_Cons:
  "to_hex_upper (b # buf) = hex_digit (drop_bit 4 b) # hex_digit (b AND 0x0F) # to_hex_upper buf"
  by (simp add: to_hex_upper_def)

lemma to_hex_upper_nth:
  "i < length buf \<Longrightarrow>
     to_hex_upper buf ! (i * 2) = hex_digit (drop_bit 4 (buf ! i)) \<and>
     to_hex_upper buf ! (i * 2 + 1) = hex_digit (buf ! i AND 0x0F)"
proof (induction buf arbitrary: i)
  case Nil
  then show ?case by simp
next
  case (Cons b buf)
  show ?case
  proof (cases i)
    case 0
    then show ?thesis by (simp add: to_hex_upper_Cons)
  next
    case (Suc j)
    with Cons.prems have "j < length buf" by simp
    from Cons.IH [OF this] show ?thesis by (simp add: to_hex_upper_Cons Suc)
  qed
qed

lemma write_string_middle:
  "length a = off \<Longrightarrow> length m = length s \<Longrightarrow> write_string (a @ m @ r) s off = a @ s @ r"
  by (simp add: write_string_def)

lemma asciiEncodeRequestBuffer_eq:
  "asciiEncodeRequestBuffer mem buf =
     of_char CHR '':'' # to_hex_upper buf @ [of_char CHR 0x0D, of_char CHR 0x0A]"
proof -
  define n where "n = length buf"
  define b0 where "b0 = newBuffer mem (n * 2 + 3)"
  have len: "length b0 = n * 2 + 3" by (simp add: b0_def newBuffer_def)
  obtain x t where b0: "b0 = x # t" using len by (cases b0) simp_all
  define m where "m = take (n * 2) t"
  have lm: "length m = n * 2" using len by (simp add: m_def b0)
  have "length (drop (n * 2) t) = 2" using len by (simp add: b0)
  then obtain y z where yz: "drop (n * 2) t = [y, z]"
    by (cases "drop (n * 2) t"; cases "tl (drop (n * 2) t)") auto
  have "t = m @ [y, z]"
    unfolding m_def yz [symmetric] by simp
  then have dec: "b0 = [] @ [x] @ (m @ [y, z])" by (simp add: b0)
  let ?c = "of_char CHR '':'' :: byte"
  let ?h = "to_hex_upper buf"
  have lh: "length ?h = n * 2" by (simp add: length_to_hex_upper n_def)
  have 1: "write_string b0 [?c] 0 = [?c] @ m @ [y, z]"
    by (subst dec, subst write_string_middle) simp_all
  have 2: "write_string ([?c] @ m @ [y, z]) ?h 1 = [?c] @ ?h @ [y, z]"
    by (rule write_string_middle) (simp_all add: lm lh)
  have 3: "write_string (([?c] @ ?h) @ [y] @ [z]) [of_char CHR 0x0D] (n * 2 + 1)
            = ([?c] @ ?h) @ [of_char CHR 0x0D] @ [z]"
    by (rule write_string_middle) (simp_all add: lh)
  have 4: "write_string (([?c] @ ?h @ [of_char CHR 0x0D]) @ [z] @ []) [of_char CHR 0x0A] (n * 2 + 2)
            = ([?c] @ ?h @ [of_char CHR 0x0D]) @ [of_char CHR 0x0A] @ []"
    by (rule write_string_middle) (simp_all add: lh)
  show ?thesis
    unfolding asciiEncodeRequestBuffer_def Let_def n_def [symmetric] b0_def [symmetric]
    using 1 2 3 4 by (simp add: lh lm)
qed

lemma decode_loop_prefix:
  assumes "length bufDecoded = length frame"
  shows "i \<le> length frame \<Longrightarrow>
     decode_loop (c # to_hex_upper frame @ rest) i bufDecoded = take i frame @ drop i bufDecoded"
proof (induction i)
  case 0
  then show ?case by simp
next
  case (Suc i)
  then have i: "i < length frame" by simp
  have h: "i * 2 < length (to_hex_upper frame)" "i * 2 + 1 < length (to_hex_upper frame)"
    using i by (simp_all add: length_to_hex_upper)
  have "decode_loop (c # to_hex_upper frame @ rest) (Suc i) bufDecoded =
      (take i frame @ drop i bufDecoded)[i := frame ! i]"
    using Suc i h to_hex_upper_nth [OF i]
    by (simp add: nth_append hex_write_digits)
  also have "\<dots> = take (Suc i) frame @ drop (Suc i) bufDecoded"
    using i assms
    by (simp add: list_update_append take_Suc_conv_app_nth Cons_nth_drop_Suc [symmetric])
  finally show ?case .
qed

lemma hex_digit_nibbles:
  "hex_digit (drop_bit 4 b) = of_char (''0123456789ABCDEF'' ! (unat b div 16)) \<and>
   hex_digit (b AND 0x0F) = of_char (''0123456789ABCDEF'' ! (unat b mod 16))"
  by (simp add: hex_digit_def unat_high_nibble unat_low_nibble)

lemma of_char_uppercase_hex: "map of_char (uppercase_hex frame) = to_hex_upper frame"
  by (induction frame) (simp_all add: uppercase_hex_def to_hex_upper_def hex_digit_nibbles)

section \<open>The CRC register stays within 16 bits\<close>

lemma xor_u16: "0 \<le> x \<Longrightarrow> x < 65536 \<Longrightarrow> y < 65536 \<Longrightarrow> (x::int) XOR y < 65536"
  using XOR_upper [of x 16 y] by simp

lemma crc_shift_range: "0 \<le> crc \<Longrightarrow> crc < 65536 \<Longrightarrow> 0 \<le> crc_shift j crc \<and> crc_shift j crc < 65536"
proof (induction j arbitrary: crc)
  case 0
  then show ?case by simp
next
  case (Suc j)
  have d: "0 \<le> drop_bit 1 crc" "drop_bit 1 crc < 65536"
    using Suc.prems by (simp_all add: drop_bit_eq_div)
  have "0 \<le> drop_bit 1 crc XOR 0xA001" "drop_bit 1 crc XOR 0xA001 < 65536"
    using d by (simp_all add: xor_u16 del: One_nat_def)
  with d show ?case
    by (simp add: Let_def Suc.IH del: One_nat_def)
qed

lemma byteAt_range: "0 \<le> byteAt buf i \<and> byteAt buf i < 256"
  using uint_lt2p [of "buf ! i"] by (simp add: byteAt_def)

lemma crc_loop_range: "0 \<le> crc_loop buf n \<and> crc_loop buf n < 65536"
proof (induction n)
  case 0
  then show ?case by simp
next
  case (Suc n)
  have b: "0 \<le> byteAt buf n" "byteAt buf n < 65536"
    using byteAt_range [of buf n] by simp_all
  have "0 \<le> crc_loop buf n XOR byteAt buf n" "crc_loop buf n XOR byteAt buf n < 65536"
    using Suc b by (simp_all add: xor_u16)
  then show ?case
    using crc_shift_range [of "crc_loop buf n XOR byteAt buf n" 8] by simp
qed

lemma crc_loop_update: "n \<le> m \<Longrightarrow> crc_loop (buf[m := x]) n = crc_loop buf n"
  by (induction n) (simp_all add: byteAt_def)

lemma CRC16_eq:
  assumes "0 \<le> len" "len + 2 \<le> int (length buf)"
  shows "CRC16 buf len =
    Inr (buf[nat len := word_of_int (crc_loop buf (nat len) mod 256),
             nat len + 1 := word_of_int (crc_loop buf (nat len) div 256)],
         crc_loop buf (nat len))"
  using assms crc_loop_range [of buf "nat len"]
  by (simp add: CRC16_def Let_def writeUInt16LE_def)

lemma CRC16_fails:
  "\<not> (0 \<le> len \<and> len + 2 \<le> int (length buf)) \<Longrightarrow> CRC16 buf len = Inl RangeError"
  using crc_loop_range [of buf "nat len"]
  by (auto simp add: CRC16_def Let_def writeUInt16LE_def)

lemma LRC_fails:
  "\<not> (0 \<le> len \<and> len < int (length buf)) \<Longrightarrow> LRC buf len = Inl RangeError"
proof -
  have "0 \<le> (- lrc_loop buf (nat len)) mod 256 \<and> (- lrc_loop buf (nat len)) mod 256 \<le> 255"
    by simp
  then show "\<not> (0 \<le> len \<and> len < int (length buf)) \<Longrightarrow> LRC buf len = Inl RangeError"
    by (auto simp add: LRC_def Let_def writeUInt8_def lrc_final)
qed

section \<open>The data handler, case by case\<close>

lemma finish_simps [simp]:
  "engine_of (finish m d r) = m"
  "data_of (finish m d r) = d"
  "calls (finish m d (Inr cs)) = cs"
  "calls (finish m d (Inl e)) = []"
  "thrown (finish m d (Inr cs)) = None"
  "thrown (finish m d (Inl e)) = Some e"
  by (simp_all add: finish_def split: sum.splits)

lemma on_data_length_mismatch:
  "int (length data) \<noteq> nextLength modbus \<Longrightarrow>
     on_data modbus data =
       finish modbus data
         (Inr (call_next (next_fn modbus)
                (Failure (DataLengthError (nextLength modbus) (length data)))))"
  by (simp add: on_data_def Let_def)

lemma on_data_short:
  "int (length data) = nextLength modbus \<Longrightarrow> length data < 2 \<Longrightarrow>
     on_data modbus data = finish modbus data (Inl RangeError)"
  by (auto simp add: on_data_def Let_def readUInt8_def)

lemma on_data_identity_mismatch:
  "int (length data) = nextLength modbus \<Longrightarrow> 2 \<le> length data \<Longrightarrow>
   Some (uint (data ! 0)) \<noteq> nextAddress modbus \<or> Some (uint (data ! 1)) \<noteq> nextCode modbus \<Longrightarrow>
     on_data modbus data =
       finish modbus data
         (Inr (call_next (next_fn modbus)
                (Failure (UnexpectedDataError (nextAddress modbus) (uint (data ! 0))))))"
  by (auto simp add: on_data_def Let_def readUInt8_def)

lemma on_data_lrc:
  assumes "int (length data) = nextLength modbus" "2 \<le> length data"
    and "Some (uint (data ! 0)) = nextAddress modbus" "Some (uint (data ! 1)) = nextCode modbus"
    and "ascii modbus \<noteq> JBool False"
  defines "l \<equiv> lrc_spec data (length data - 1)"
  defines "data' \<equiv> data[length data - 1 := word_of_int l]"
  shows "on_data modbus data =
     finish (cleared modbus) data'
       (if uint (data ! (length data - 1)) \<noteq> l
        then Inr (call_next (next_fn modbus) (Failure LRCError))
        else parse data' (uint (data ! 1)) (next_fn modbus))"
proof -
  have n: "nat (int (length data) - 1) = length data - 1" using assms(2) by simp
  have L: "LRC data (int (length data) - 1) = Inr (data', l)"
    using assms(2) LRC_eq [of "int (length data) - 1" data] by (cases data) (simp_all add: n l_def data'_def)
  have ne: "data \<noteq> []" using assms(2) by auto
  have R: "readUInt8 data (int (length data) - 1) = Inr (uint (data ! (length data - 1)))"
    using assms(2) ne by (simp add: readUInt8_def n)
  have R0: "readUInt8 data 0 = Inr (uint (data ! 0))" "readUInt8 data 1 = Inr (uint (data ! 1))"
    using assms(2) by (simp_all add: readUInt8_def)
  show ?thesis
    using assms(1) [symmetric] assms(3,4,5)
    by (simp add: on_data_def Let_def R0 R L strict_eq_def cleared_def)
qed

lemma on_data_crc:
  assumes "int (length data) = nextLength modbus" "2 \<le> length data"
    and "Some (uint (data ! 0)) = nextAddress modbus" "Some (uint (data ! 1)) = nextCode modbus"
    and "ascii modbus = JBool False"
  defines "crc \<equiv> crc_loop data (length data - 2)"
  defines "data' \<equiv> data[length data - 2 := word_of_int (crc mod 256),
                         length data - 1 := word_of_int (crc div 256)]"
  shows "on_data modbus data =
     finish (cleared modbus) data'
       (if uint (data ! (length data - 2)) + uint (data ! (length data - 1)) * 256 \<noteq> crc
        then Inr (call_next (next_fn modbus) (Failure CRCError))
        else parse data' (uint (data ! 1)) (next_fn modbus))"
proof -
  have n: "nat (int (length data) - 2) = length data - 2" using assms(2) by simp
  have n1: "Suc (length data - 2) = length data - Suc 0" using assms(2) by simp
  have C: "CRC16 data (int (length data) - 2) = Inr (data', crc)"
    using assms(2) CRC16_eq [of "int (length data) - 2" data]
    by (simp add: n n1 crc_def data'_def)
  have R: "readUInt16LE data (int (length data) - 2) =
      Inr (uint (data ! (length data - 2)) + uint (data ! (length data - 1)) * 256)"
    using assms(2) by (simp add: readUInt16LE_def n n1)
  have R0: "readUInt8 data 0 = Inr (uint (data ! 0))" "readUInt8 data 1 = Inr (uint (data ! 1))"
    using assms(2) by (simp_all add: readUInt8_def)
  show ?thesis
    using assms(1) [symmetric] assms(3,4,5)
    by (simp add: on_data_def Let_def R0 R C strict_eq_def cleared_def
        del: One_nat_def)
qed

section \<open>Decoding of validated responses\<close>

lemma crc_bytes_back:
  "uint (a::byte) + uint (b::byte) * 256 = crc \<Longrightarrow>
     (word_of_int (crc mod 256) :: byte) = a \<and> (word_of_int (crc div 256) :: byte) = b"
proof -
  assume c: "uint a + uint b * 256 = crc"
  have r: "0 \<le> uint a" "uint a < 256" using uint_lt2p [of a] by simp_all
  have "crc mod 256 = uint a" "crc div 256 = uint b"
    using r c by auto
  then show ?thesis by simp
qed

lemma on_data_valid:
  assumes "passes_checks modbus data" "stored_checksum_matches modbus data"
  shows "on_data modbus data =
     finish (cleared modbus) data (parse data (uint (data ! 1)) (next_fn modbus))"
proof (cases "ascii modbus = JBool False")
  case True
  let ?crc = "crc_loop data (length data - 2)"
  have m: "uint (data ! (length data - 2)) + uint (data ! (length data - 1)) * 256 = ?crc"
    using assms(2) True by (simp add: stored_checksum_matches_def strict_eq_def)
  have "data[length data - 2 := word_of_int (?crc mod 256),
             length data - 1 := word_of_int (?crc div 256)] = data"
    using crc_bytes_back [OF m] by simp
  then show ?thesis
    using assms(1) True m by (simp add: passes_checks_def on_data_crc)
next
  case False
  let ?l = "lrc_spec data (length data - 1)"
  have m: "uint (data ! (length data - 1)) = ?l"
    using assms(2) False by (simp add: stored_checksum_matches_def strict_eq_def)
  have "data[length data - 1 := word_of_int ?l] = data"
    using m [symmetric] by simp
  then show ?thesis
    using assms(1) False m by (simp add: passes_checks_def on_data_lrc)
qed

lemma on_data_invalid:
  assumes "passes_checks modbus data" "\<not> stored_checksum_matches modbus data"
  shows "on_data modbus data =
     finish (cleared modbus)
       (if ascii modbus = JBool False
        then data[length data - 2 := word_of_int (crc_loop data (length data - 2) mod 256),
                  length data - 1 := word_of_int (crc_loop data (length data - 2) div 256)]
        else data[length data - 1 := word_of_int (lrc_spec data (length data - 1))])
       (Inr (call_next (next_fn modbus)
          (Failure (if ascii modbus = JBool False then CRCError else LRCError))))"
  using assms
  by (cases "ascii modbus = JBool False")
     (simp_all add: passes_checks_def stored_checksum_matches_def strict_eq_def
        on_data_crc on_data_lrc)

lemma on_data_cases:
  "(\<not> passes_checks modbus data \<and> engine_of (on_data modbus data) = modbus \<and>
      data_of (on_data modbus data) = data \<and>
      (\<forall>c \<in> set (calls (on_data modbus data)). \<exists>k m. c = (k, Failure m) \<and> m \<noteq> CRCError \<and> m \<noteq> LRCError)) \<or>
   (passes_checks modbus data \<and> \<not> stored_checksum_matches modbus data) \<or>
   (passes_checks modbus data \<and> stored_checksum_matches modbus data)"
proof (cases "passes_checks modbus data")
  case True
  then show ?thesis by blast
next
  case False
  show ?thesis
  proof (cases "int (length data) = nextLength modbus")
    case ne: False
    then show ?thesis
      using False by (auto simp: on_data_length_mismatch call_next_def split: option.splits)
  next
    case eq: True
    show ?thesis
    proof (cases "2 \<le> length data")
      case short: False
      then show ?thesis using False eq by (simp add: on_data_short)
    next
      case True
      with eq False
      have "Some (uint (data ! 0)) \<noteq> nextAddress modbus \<or> Some (uint (data ! 1)) \<noteq> nextCode modbus"
        unfolding passes_checks_def by blast
      from on_data_identity_mismatch [OF eq True this] show ?thesis
        using False by (auto simp: call_next_def split: option.splits)
    qed
  qed
qed

lemma length_bits_loop: "length (bits_loop j reg) = j"
  by (induction j arbitrary: reg) simp_all

lemma length_coils_loop: "length (coils_loop data n) = 8 * n"
  by (induction n) (simp_all add: length_bits_loop)

lemma and_1_odd: "((k::int) AND 1 = 1) = odd k"
  by (simp add: and_one_eq mod_2_eq_odd)

lemma bits_loop_nth: "j < n \<Longrightarrow> bits_loop n reg ! j = bit reg j"
proof (induction n arbitrary: reg j)
  case 0
  then show ?case by simp
next
  case (Suc n)
  show ?case
  proof (cases j)
    case 0
    then show ?thesis by (simp add: and_1_odd bit_0)
  next
    case (Suc i)
    with Suc.prems have "i < n" by simp
    from Suc.IH [OF this] show ?thesis
      by (simp add: Suc bit_Suc drop_bit_eq_div del: One_nat_def)
  qed
qed

lemma window_div_mod:
  "\<not> j < 8 * n \<Longrightarrow> j < 8 + 8 * n \<Longrightarrow> j div 8 = n \<and> j - 8 * n = j mod 8 \<and> j mod 8 < (8::nat)"
proof -
  assume a: "\<not> j < 8 * n" "j < 8 + 8 * n"
  define r where "r = j - 8 * n"
  have j: "j = r + n * 8" "r < 8" using a by (simp_all add: r_def)
  show ?thesis unfolding r_def [symmetric] by (simp add: j)
qed

lemma coils_loop_nth:
  "j < 8 * n \<Longrightarrow> coils_loop data n ! j = bit (byteAt data (j div 8 + 3)) (j mod 8)"
proof (induction n)
  case 0
  then show ?case by simp
next
  case (Suc n)
  show ?case
  proof (cases "j < 8 * n")
    case True
    with Suc.IH show ?thesis by (simp add: nth_append length_coils_loop)
  next
    case False
    with Suc.prems have d: "j div 8 = n" "j - 8 * n = j mod 8" "j mod 8 < 8"
      using window_div_mod [of j n] by simp_all
    have "coils_loop data (Suc n) ! j = bits_loop 8 (byteAt data (n + 3)) ! (j mod 8)"
      using False d(2) by (simp add: nth_append length_coils_loop del: bits_loop.simps)
    also have "\<dots> = bit (byteAt data (n + 3)) (j mod 8)"
      using d(3) by (rule bits_loop_nth)
    finally show ?thesis by (simp add: d(1))
  qed
qed

lemma bit_byteAt: "bit (byteAt data i) b = (i < length data \<and> bit (data ! i) b)"
  by (auto simp: byteAt_def bit_uint_iff dest: bit_imp_le_length)

lemma div256_range: "0 \<le> (x::int) \<Longrightarrow> x < 65536 \<Longrightarrow> 0 \<le> x div 256 \<and> x div 256 < 256"
  using zdiv_mono1 [of x 65535 256] by (simp add: pos_imp_zdiv_nonneg_iff)

section \<open>The write paths, step by step\<close>

lemma and_then_Inr: "(and_then r f = Inr y) = (\<exists>x. r = Inr x \<and> f x = Inr y)"
  by (cases r) (simp_all add: and_then_def)

lemma writeUInt8_length: "writeUInt8 buf v off = Inr b \<Longrightarrow> length b = length buf"
  by (auto simp: writeUInt8_def split: if_splits)

lemma writeUInt16BE_length: "writeUInt16BE buf v off = Inr b \<Longrightarrow> length b = length buf"
  by (auto simp: writeUInt16BE_def split: if_splits)

lemma write_array_length: "write_array array i buf = Inr b \<Longrightarrow> length b = length buf"
proof (induction i arbitrary: b)
  case 0
  then show ?case by simp
next
  case (Suc i)
  then obtain b' where "write_array array i buf = Inr b'"
    and "writeUInt16BE b' (array ! i) (7 + 2 * int i) = Inr b"
    by (auto simp: and_then_Inr)
  with Suc.IH show ?case by (simp add: writeUInt16BE_length)
qed

lemma lrc_spec_update: "n \<le> m \<Longrightarrow> lrc_spec (buf[m := x]) n = lrc_spec buf n"
  by (simp add: lrc_spec_def)

lemma checksum_result:
  assumes "\<not> strict_eq (ascii this) True" and "checksum this buf (int cl) = Inr out"
    and "length buf = cl + 1"
  shows "length out = cl + 1 \<and> out ! cl = word_of_int (lrc_spec out cl) \<and>
         take cl out = take cl buf"
proof -
  have "LRC buf (int cl) = Inr (buf[cl := word_of_int (lrc_spec buf cl)], lrc_spec buf cl)"
    using LRC_eq [of "int cl" buf] assms(3) by simp
  with assms(1,2) have "out = buf[cl := word_of_int (lrc_spec buf cl)]"
    by (simp add: checksum_def and_then_def)
  then show ?thesis
    using assms(3) by (simp add: lrc_spec_update)
qed

lemma core_written:
  assumes "and_then (writeUInt8 buf a 0) (\<lambda>buf.
           and_then (writeUInt8 buf c 1) (\<lambda>buf.
           and_then (writeUInt16BE buf d 2) (\<lambda>buf.
           and_then (w buf) (\<lambda>buf. checksum this buf 6)))) = Inr out"
    and "\<And>b b'. w b = Inr b' \<Longrightarrow> length b' = length b"
    and "length buf = 7" and "\<not> strict_eq (ascii this) True"
  shows "length out = 7 \<and> out ! 6 = word_of_int (lrc_spec out 6)"
proof -
  from assms(1) obtain b1 b2 b3 b4 where
    "writeUInt8 buf a 0 = Inr b1" "writeUInt8 b1 c 1 = Inr b2"
    "writeUInt16BE b2 d 2 = Inr b3" "w b3 = Inr b4" and ck: "checksum this b4 6 = Inr out"
    by (auto simp: and_then_Inr)
  then have "length b4 = 6 + 1"
    using assms(2,3) by (simp add: writeUInt8_length writeUInt16BE_length)
  from checksum_result [OF assms(4) _ this] ck show ?thesis by simp
qed

lemma snd_writeFC2:
  "snd (writeFC2 rep mem this a d n k c) =
     and_then (writeUInt8 (alloc_buf rep mem this 6) a 0) (\<lambda>buf.
     and_then (writeUInt8 buf (default_code c 2) 1) (\<lambda>buf.
     and_then (writeUInt16BE buf d 2) (\<lambda>buf.
     and_then (writeUInt16BE buf n 4) (\<lambda>buf. checksum this buf 6))))"
  by (simp add: writeFC2_def Let_def checksum_def strict_eq_def set_nextLength_def alloc_buf_def
      split: repair.splits cong: if_cong)

lemma snd_writeFC4:
  "snd (writeFC4 rep mem this a d n k c) =
     and_then (writeUInt8 (alloc_buf rep mem this 6) a 0) (\<lambda>buf.
     and_then (writeUInt8 buf (default_code c 4) 1) (\<lambda>buf.
     and_then (writeUInt16BE buf d 2) (\<lambda>buf.
     and_then (writeUInt16BE buf n 4) (\<lambda>buf. checksum this buf 6))))"
  by (simp add: writeFC4_def Let_def checksum_def strict_eq_def set_nextLength_def alloc_buf_def
      split: repair.splits cong: if_cong)

lemma snd_writeFC5:
  "snd (writeFC5 rep mem this a d s k) =
     and_then (writeUInt8 (alloc_buf rep mem this 6) a 0) (\<lambda>buf.
     and_then (writeUInt8 buf 5 1) (\<lambda>buf.
     and_then (writeUInt16BE buf d 2) (\<lambda>buf.
     and_then (if s then writeUInt16BE buf 0xff00 4 else writeUInt16BE buf 0x0000 4)
       (\<lambda>buf. checksum this buf 6))))"
  by (simp add: writeFC5_def Let_def checksum_def strict_eq_def set_nextLength_def alloc_buf_def
      split: repair.splits cong: if_cong)

lemma snd_writeFC6:
  "snd (writeFC6 rep mem this a d v k) =
     and_then (writeUInt8 (alloc_buf rep mem this 6) a 0) (\<lambda>buf.
     and_then (writeUInt8 buf 6 1) (\<lambda>buf.
     and_then (writeUInt16BE buf d 2) (\<lambda>buf.
     and_then (writeUInt16BE buf v 4) (\<lambda>buf. checksum this buf 6))))"
  by (simp add: writeFC6_def Let_def checksum_def strict_eq_def set_nextLength_def alloc_buf_def
      split: repair.splits cong: if_cong)

lemma snd_writeFC16:
  "snd (writeFC16 rep mem this a d vs k) =
     and_then (writeUInt8 (alloc_buf rep mem this (7 + 2 * length vs)) a 0) (\<lambda>buf.
     and_then (writeUInt8 buf 16 1) (\<lambda>buf.
     and_then (writeUInt16BE buf d 2) (\<lambda>buf.
     and_then (writeUInt16BE buf (int (length vs)) 4) (\<lambda>buf.
     and_then (writeUInt8 buf (int (length vs) * 2) 6) (\<lambda>buf.
     and_then (write_array vs (length vs) buf) (\<lambda>buf.
       checksum this buf (int (7 + 2 * length vs))))))))"
  by (simp add: writeFC16_def Let_def checksum_def strict_eq_def set_nextLength_def alloc_buf_def
      split: repair.splits cong: if_cong)

lemma alloc_buf_not_false:
  "\<not> strict_eq (ascii this) False \<Longrightarrow> alloc_buf rep mem this cl = newBuffer mem (cl + 1)"
  by (simp add: alloc_buf_def split: repair.splits)

lemma set_nextLength_not_false:
  "\<not> strict_eq (ascii this) False \<Longrightarrow> set_nextLength rep this A B = this\<lparr>nextLength := B\<rparr>"
  by (simp add: set_nextLength_def split: repair.splits)

lemma writeFC2_lrc:
  assumes "\<not> strict_eq (ascii this) True" and "\<not> strict_eq (ascii this) False"
    and "snd (writeFC2 rep mem this a d n k c) = Inr out"
  shows "length out = 7 \<and> out ! 6 = word_of_int (lrc_spec out 6)"
  by (rule core_written [OF assms(3) [unfolded snd_writeFC2] _ _ assms(1)])
     (simp_all add: alloc_buf_not_false [OF assms(2)] newBuffer_def writeUInt16BE_length)

lemma writeFC4_lrc:
  assumes "\<not> strict_eq (ascii this) True" and "\<not> strict_eq (ascii this) False"
    and "snd (writeFC4 rep mem this a d n k c) = Inr out"
  shows "length out = 7 \<and> out ! 6 = word_of_int (lrc_spec out 6)"
  by (rule core_written [OF assms(3) [unfolded snd_writeFC4] _ _ assms(1)])
     (simp_all add: alloc_buf_not_false [OF assms(2)] newBuffer_def writeUInt16BE_length)

lemma writeFC5_lrc:
  assumes "\<not> strict_eq (ascii this) True" and "\<not> strict_eq (ascii this) False"
    and "snd (writeFC5 rep mem this a d s k) = Inr out"
  shows "length out = 7 \<and> out ! 6 = word_of_int (lrc_spec out 6)"
  by (rule core_written [OF assms(3) [unfolded snd_writeFC5] _ _ assms(1)])
     (simp_all add: alloc_buf_not_false [OF assms(2)] newBuffer_def writeUInt16BE_length
        split: if_splits)

lemma writeFC6_lrc:
  assumes "\<not> strict_eq (ascii this) True" and "\<not> strict_eq (ascii this) False"
    and "snd (writeFC6 rep mem this a d v k) = Inr out"
  shows "length out = 7 \<and> out ! 6 = word_of_int (lrc_spec out 6)"
  by (rule core_written [OF assms(3) [unfolded snd_writeFC6] _ _ assms(1)])
     (simp_all add: alloc_buf_not_false [OF assms(2)] newBuffer_def writeUInt16BE_length)

lemma writeFC16_lrc:
  assumes "\<not> strict_eq (ascii this) True" and "\<not> strict_eq (ascii this) False"
    and "snd (writeFC16 rep mem this a d vs k) = Inr out"
  shows "length out = 7 + 2 * length vs + 1 \<and>
         out ! (7 + 2 * length vs) = word_of_int (lrc_spec out (7 + 2 * length vs))"
proof -
  let ?cl = "7 + 2 * length vs"
  from assms(3) [unfolded snd_writeFC16 alloc_buf_not_false [OF assms(2)]]
  obtain b1 b2 b3 b4 b5 b6 where
    "writeUInt8 (newBuffer mem (?cl + 1)) a 0 = Inr b1" "writeUInt8 b1 16 1 = Inr b2"
    "writeUInt16BE b2 d 2 = Inr b3" "writeUInt16BE b3 (int (length vs)) 4 = Inr b4"
    "writeUInt8 b4 (int (length vs) * 2) 6 = Inr b5"
    "write_array vs (length vs) b5 = Inr b6"
    and ck: "checksum this b6 (int ?cl) = Inr out"
    unfolding and_then_Inr by blast
  then have "length b6 = ?cl + 1"
    by (simp add: writeUInt8_length writeUInt16BE_length write_array_length newBuffer_def)
  from checksum_result [OF assms(1) ck this] show ?thesis by simp
qed

lemma ascii_set_nextLength [simp]: "ascii (set_nextLength rep this A B) = ascii this"
  by (simp add: set_nextLength_def Let_def split: repair.splits)

lemma ascii_after_write [simp]:
  "ascii (fst (writeFC2 rep mem this a d n k c)) = ascii this"
  "ascii (fst (writeFC4 rep mem this a d n k c)) = ascii this"
  "ascii (fst (writeFC1 rep mem this a d n k)) = ascii this"
  "ascii (fst (writeFC3 rep mem this a d n k)) = ascii this"
  "ascii (fst (writeFC5 rep mem this a d s k)) = ascii this"
  "ascii (fst (writeFC6 rep mem this a d n k)) = ascii this"
  "ascii (fst (writeFC16 rep mem this a d vs k)) = ascii this"
  by (simp_all add: writeFC1_def writeFC2_def writeFC3_def writeFC4_def writeFC5_def
      writeFC6_def writeFC16_def Let_def)

lemma engine_of_on_data:
  "engine_of (on_data modbus data) = modbus \<or> engine_of (on_data modbus data) = cleared modbus"
proof (cases "passes_checks modbus data")
  case False
  with on_data_cases [of modbus data] show ?thesis by blast
next
  case True
  show ?thesis
  proof (cases "stored_checksum_matches modbus data")
    case True
    from on_data_valid [OF \<open>passes_checks modbus data\<close> this] show ?thesis by simp
  next
    case False
    from on_data_invalid [OF \<open>passes_checks modbus data\<close> this] show ?thesis by simp
  qed
qed

lemma ascii_after_data [simp]: "ascii (engine_of (on_data modbus data)) = ascii modbus"
  using engine_of_on_data [of modbus data] by (auto simp: cleared_def)

lemma reachable_ascii: "reachable modbus \<Longrightarrow> ascii modbus = Undefined"
  by (induction rule: reachable.induct) (simp_all add: ModbusRTU_def)

lemma call_next_set: "c \<in> set (call_next nxt a) \<Longrightarrow> snd c = a"
  by (auto simp: call_next_def split: option.splits)

lemma parse_calls_success:
  assumes "parse data code nxt = Inr cs" "c \<in> set cs"
  shows "\<exists>r. snd c = Success r"
proof -
  have "\<exists>r. cs = call_next nxt (Success r) \<or> cs = []"
    using assms(1)
    by (auto simp: parse_def readFC2_def readFC4_def readFC5_def readFC6_def readFC16_def
        and_then_Inr Let_def split: if_splits)
  with assms(2) show ?thesis
    by (auto dest: call_next_set)
qed

section \<open>Expected lengths of coil reads\<close>

lemma parseInt_eighths:
  "0 \<le> n \<Longrightarrow> n \<le> 65535 \<Longrightarrow> parseInt ((rat_of_int n - 1) / 8 + 1) = \<lceil>rat_of_int n / 8\<rceil>"
proof -
  assume n: "0 \<le> n" "n \<le> 65535"
  have e: "(rat_of_int n - 1) / 8 + 1 = rat_of_int (n + 7) / rat_of_int 8"
    by (simp add: field_simps)
  have lo: "(7::rat) / 8 \<le> rat_of_int (n + 7) / rat_of_int 8"
    using n by simp
  have hi: "rat_of_int (n + 7) / rat_of_int 8 \<le> 8193"
    using n by simp
  have p: "0 \<le> rat_of_int (n + 7) / rat_of_int 8"
    using lo by linarith
  have r: "1 / 10 ^ 6 \<le> \<bar>rat_of_int (n + 7) / rat_of_int 8\<bar> \<and>
      \<bar>rat_of_int (n + 7) / rat_of_int 8\<bar> < 10 ^ 21"
    using lo hi p by (simp only: abs_of_nonneg) simp
  have "parseInt ((rat_of_int n - 1) / 8 + 1) = \<lfloor>rat_of_int (n + 7) / rat_of_int 8\<rfloor>"
    unfolding parseInt_def e using p r by simp
  then have "parseInt ((rat_of_int n - 1) / 8 + 1) = (n + 7) div 8"
    by (simp only: floor_divide_of_int_eq)
  moreover have "\<lceil>rat_of_int n / rat_of_int 8\<rceil> = - (- n div 8)"
    by (rule ceiling_divide_eq_div)
  moreover have "- (- n div 8) = (n + 7) div 8"
    by linarith
  ultimately show ?thesis by simp
qed

lemma uint_byte_of_int: "0 \<le> v \<Longrightarrow> v \<le> 255 \<Longrightarrow> uint (word_of_int v :: byte) = v"
  by (simp add: uint_word_of_int take_bit_eq_mod)

lemma newBuffer_7:
  "newBuffer mem 7 = [mem 0, mem 1, mem 2, mem 3, mem 4, mem 5, mem 6]"
  by (simp add: newBuffer_def eval_nat_numeral)

lemma read_request_bytes:
  assumes "0 \<le> a" "a \<le> 255" "0 \<le> c" "c \<le> 255" "0 \<le> d" "d \<le> 65535" "0 \<le> n" "n \<le> 65535"
    and "\<not> strict_eq (ascii this) True"
  shows "and_then (writeUInt8 (newBuffer mem 7) a 0) (\<lambda>buf.
         and_then (writeUInt8 buf c 1) (\<lambda>buf.
         and_then (writeUInt16BE buf d 2) (\<lambda>buf.
         and_then (writeUInt16BE buf n 4) (\<lambda>buf. checksum this buf 6)))) =
     Inr [word_of_int a, word_of_int c, word_of_int (d div 256), word_of_int (d mod 256),
          word_of_int (n div 256), word_of_int (n mod 256),
          word_of_int (lrc_spec
            [word_of_int a, word_of_int c, word_of_int (d div 256), word_of_int (d mod 256),
             word_of_int (n div 256), word_of_int (n mod 256), mem 6] 6)]"
proof -
  let ?b = "[word_of_int a, word_of_int c, word_of_int (d div 256), word_of_int (d mod 256),
             word_of_int (n div 256), word_of_int (n mod 256), mem 6] :: byte list"
  have w: "and_then (writeUInt8 (newBuffer mem 7) a 0) (\<lambda>buf.
         and_then (writeUInt8 buf c 1) (\<lambda>buf.
         and_then (writeUInt16BE buf d 2) (\<lambda>buf.
         and_then (writeUInt16BE buf n 4) f))) = f ?b" for f :: "byte list \<Rightarrow> error + byte list"
    using assms(1-8)
    by (simp add: newBuffer_7 and_then_def writeUInt8_def writeUInt16BE_def)
  have "LRC ?b 6 = Inr (?b[nat 6 := word_of_int (lrc_spec ?b (nat 6))], lrc_spec ?b (nat 6))"
    by (rule LRC_eq) simp_all
  then have "checksum this ?b 6 =
      Inr (?b[6 := word_of_int (lrc_spec ?b 6)])"
    using assms(9) by (simp add: checksum_def and_then_def)
  then show ?thesis
    unfolding w by simp
qed

section \<open>The frame a write path builds\<close>

lemma length_core6 [simp]: "length (core6 a c p1 p2) = 6"
  by (simp add: core6_def be16_def)

lemma length_be16 [simp]: "length (be16 v) = 2"
  by (simp add: be16_def)

lemma length_concat_be16 [simp]: "length (concat (map be16 vs)) = 2 * length vs"
  by (induction vs) simp_all

lemma length_core16 [simp]: "length (core16 a d vs) = 7 + 2 * length vs"
  by (simp add: core16_def)

lemma six_bytes:
  assumes "6 \<le> length buf"
  obtains b0 b1 b2 b3 b4 b5 rest where "buf = b0 # b1 # b2 # b3 # b4 # b5 # rest"
proof -
  from assms obtain b0 b1 b2 b3 b4 b5 rest where "buf = b0 # b1 # b2 # b3 # b4 # b5 # rest"
    by (auto simp: eval_nat_numeral Suc_le_length_iff)
  then show ?thesis by (rule that)
qed

lemma core_writes:
  assumes "0 \<le> a" "a \<le> 255" "0 \<le> c" "c \<le> 255" "0 \<le> d" "d \<le> 65535" "0 \<le> n" "n \<le> 65535"
    and "6 \<le> length buf"
  shows "and_then (writeUInt8 buf a 0) (\<lambda>buf.
         and_then (writeUInt8 buf c 1) (\<lambda>buf.
         and_then (writeUInt16BE buf d 2) (\<lambda>buf.
         and_then (writeUInt16BE buf n 4) f))) = f (core6 a c d n @ drop 6 buf)"
proof -
  from assms(9) obtain b0 b1 b2 b3 b4 b5 rest where b: "buf = b0 # b1 # b2 # b3 # b4 # b5 # rest"
    by (rule six_bytes)
  show ?thesis
    unfolding b using assms(1-8)
    by (simp add: and_then_def writeUInt8_def writeUInt16BE_def core6_def be16_def)
qed

lemma lrc_spec_append: "length core = n \<Longrightarrow> lrc_spec (core @ rest) n = lrc_spec core n"
  by (simp add: lrc_spec_def)

lemma checksum_append:
  assumes "\<not> strict_eq (ascii this) True"
  shows "checksum this (core @ x # rest) (int (length core)) =
           Inr (with_lrc core @ rest)"
proof -
  have "LRC (core @ x # rest) (int (length core)) =
      Inr ((core @ x # rest)[nat (int (length core)) :=
             word_of_int (lrc_spec (core @ x # rest) (nat (int (length core))))],
           lrc_spec (core @ x # rest) (nat (int (length core))))"
    by (rule LRC_eq) simp_all
  then show ?thesis
    using assms by (simp add: checksum_def and_then_def lrc_spec_append with_lrc_def)
qed

lemma checksum_crc_throws:
  assumes "strict_eq (ascii this) True"
  shows "checksum this (core @ [x]) (int (length core)) = Inl RangeError"
  using assms CRC16_fails [of "int (length core)" "core @ [x]"]
  by (simp add: checksum_def and_then_def)

lemma newBuffer_Suc: "newBuffer mem (Suc n) = newBuffer mem n @ [mem n]"
  by (simp add: newBuffer_def)

lemma length_newBuffer [simp]: "length (newBuffer mem n) = n"
  by (simp add: newBuffer_def)

lemma drop_newBuffer_7: "drop 6 (newBuffer mem 7) = [mem 6]"
  by (simp add: newBuffer_7)

lemma frame6:
  assumes "0 \<le> a" "a \<le> 255" "0 \<le> c" "c \<le> 255" "0 \<le> d" "d \<le> 65535" "0 \<le> n" "n \<le> 65535"
    and "\<not> strict_eq (ascii this) True" "\<not> strict_eq (ascii this) False"
  shows "and_then (writeUInt8 (alloc_buf rep mem this 6) a 0) (\<lambda>buf.
         and_then (writeUInt8 buf c 1) (\<lambda>buf.
         and_then (writeUInt16BE buf d 2) (\<lambda>buf.
         and_then (writeUInt16BE buf n 4) (\<lambda>buf. checksum this buf 6)))) =
       Inr (with_lrc (core6 a c d n))"
proof -
  have "checksum this (core6 a c d n @ [mem 6]) (int (length (core6 a c d n))) =
      Inr (with_lrc (core6 a c d n) @ [])"
    by (rule checksum_append [OF assms(9)])
  then show ?thesis
    unfolding alloc_buf_not_false [OF assms(10)]
    by (subst core_writes [OF assms(1-8)]) (simp_all add: drop_newBuffer_7)
qed

lemma update2_append:
  "length A = k \<Longrightarrow> 2 \<le> length D \<Longrightarrow> (A @ D)[k := h, Suc k := l] = A @ h # l # drop 2 D"
proof -
  assume k: "length A = k" and "2 \<le> length D"
  then obtain x y D' where D: "D = x # y # D'"
    by (cases D; cases "tl D") auto
  show ?thesis
    unfolding D using k by (simp add: list_update_append)
qed

lemma write_array_eq:
  assumes "\<forall>v \<in> set vs. 0 \<le> v \<and> v \<le> 65535" "length pre = 7" "length body = 2 * length vs"
  shows "i \<le> length vs \<Longrightarrow>
     write_array vs i (pre @ body @ tail) =
       Inr (pre @ concat (map be16 (take i vs)) @ drop (2 * i) body @ tail)"
proof (induction i)
  case 0
  then show ?case by simp
next
  case (Suc i)
  then have i: "i < length vs" by simp
  let ?A = "pre @ concat (map be16 (take i vs))"
  let ?D = "drop (2 * i) body @ tail"
  have v: "0 \<le> vs ! i" "vs ! i \<le> 65535"
    using assms(1) i by (auto simp: all_set_conv_all_nth)
  have lA: "length ?A = 7 + 2 * i"
    using i assms(2) by simp
  have lD: "2 \<le> length ?D"
    using i assms(3) by simp
  have n: "nat (7 + 2 * int i) = 7 + 2 * i" by simp
  have "writeUInt16BE (?A @ ?D) (vs ! i) (7 + 2 * int i) =
      Inr ((?A @ ?D)[7 + 2 * i := word_of_int (vs ! i div 256),
                     Suc (7 + 2 * i) := word_of_int (vs ! i mod 256)])"
    using v lA lD unfolding writeUInt16BE_def n by simp
  also have "(?A @ ?D)[7 + 2 * i := word_of_int (vs ! i div 256),
                     Suc (7 + 2 * i) := word_of_int (vs ! i mod 256)] =
      ?A @ word_of_int (vs ! i div 256) # word_of_int (vs ! i mod 256) # drop 2 ?D"
    by (rule update2_append [OF lA lD])
  also have "drop 2 ?D = drop (2 * Suc i) body @ tail"
    using i assms(3) by simp
  finally have w: "writeUInt16BE (?A @ ?D) (vs ! i) (7 + 2 * int i) =
      Inr (pre @ concat (map be16 (take (Suc i) vs)) @ drop (2 * Suc i) body @ tail)"
    using i by (simp add: take_Suc_conv_app_nth be16_def [of "vs ! i"])
  from Suc.IH i have "write_array vs i (pre @ body @ tail) = Inr (?A @ ?D)"
    by simp
  then show ?case
    using w by (simp add: and_then_def)
qed

lemma frame16:
  assumes "0 \<le> a" "a \<le> 255" "0 \<le> d" "d \<le> 65535" "length vs \<le> 127"
    and "\<forall>v \<in> set vs. 0 \<le> v \<and> v \<le> 65535"
    and "\<not> strict_eq (ascii this) True" "\<not> strict_eq (ascii this) False"
  shows "snd (writeFC16 rep mem this a d vs k) = Inr (with_lrc (core16 a d vs))"
proof -
  let ?m = "length vs"
  let ?pre = "core6 a 16 d (int ?m) @ [word_of_int (int ?m * 2)]"
  define buf where "buf = newBuffer mem (7 + 2 * ?m)"
  define x where "x = mem (7 + 2 * ?m)"
  define body where "body = drop 7 buf"
  have lbuf: "length buf = 7 + 2 * ?m" by (simp add: buf_def)
  have lb: "length body = 2 * ?m" by (simp add: body_def lbuf)
  have nb: "newBuffer mem (7 + 2 * ?m + 1) = buf @ [x]"
    using newBuffer_Suc [of mem "7 + 2 * ?m"] by (simp add: buf_def x_def)
  define y where "y = buf ! 6"
  have d6: "drop 6 buf = y # body"
    using Cons_nth_drop_Suc [of 6 buf] lbuf by (simp add: body_def y_def)
  have m: "0 \<le> int ?m" "int ?m \<le> 65535" "0 \<le> int ?m * 2" "int ?m * 2 \<le> 255"
    using assms(5) by simp_all
  have c16: "(0::int) \<le> 16" "(16::int) \<le> 255" by simp_all
  have l6: "6 \<le> length (buf @ [x])" by (simp add: lbuf)
  have w6: "writeUInt8 (core6 a 16 d (int ?m) @ y # body @ [x]) (int ?m * 2) 6 =
      Inr (?pre @ body @ [x])"
    using m by (simp add: writeUInt8_def list_update_append)
  have wa: "write_array vs ?m (?pre @ body @ [x]) =
      Inr (?pre @ concat (map be16 (take ?m vs)) @ drop (2 * ?m) body @ [x])"
    by (rule write_array_eq [OF assms(6) _ lb]) simp_all
  have wa': "write_array vs ?m (?pre @ body @ [x]) = Inr (core16 a d vs @ [x])"
    unfolding wa by (simp add: lb core16_def)
  have ck: "checksum this (core16 a d vs @ [x]) (int (length (core16 a d vs))) =
      Inr (with_lrc (core16 a d vs) @ [])"
    by (rule checksum_append [OF assms(7)])
  have dd: "drop 6 (buf @ [x]) = y # body @ [x]"
    using d6 lbuf by simp
  have ck': "checksum this (core16 a d vs @ [x]) (int (7 + 2 * ?m)) =
      Inr (with_lrc (core16 a d vs))"
    using ck by simp
  have "snd (writeFC16 rep mem this a d vs k) =
      and_then (writeUInt8 (core6 a 16 d (int ?m) @ drop 6 (buf @ [x])) (int ?m * 2) 6) (\<lambda>buf.
      and_then (write_array vs ?m buf) (\<lambda>buf. checksum this buf (int (7 + 2 * ?m))))"
    unfolding snd_writeFC16 alloc_buf_not_false [OF assms(8)] nb
    by (rule core_writes [OF assms(1,2) c16 assms(3,4) m(1,2) l6])
  also have "\<dots> = Inr (with_lrc (core16 a d vs))"
    unfolding dd w6 and_then_def sum.case wa' ck' ..
  finally show ?thesis .
qed

lemma frame2:
  assumes "0 \<le> a" "a \<le> 255" "0 \<le> default_code c 2" "default_code c 2 \<le> 255"
    and "0 \<le> d" "d \<le> 65535" "0 \<le> n" "n \<le> 65535"
    and "\<not> strict_eq (ascii this) True" "\<not> strict_eq (ascii this) False"
  shows "snd (writeFC2 rep mem this a d n k c) = Inr (with_lrc (core6 a (default_code c 2) d n))"
  unfolding snd_writeFC2 by (rule frame6 [OF assms])

lemma frame4:
  assumes "0 \<le> a" "a \<le> 255" "0 \<le> default_code c 4" "default_code c 4 \<le> 255"
    and "0 \<le> d" "d \<le> 65535" "0 \<le> n" "n \<le> 65535"
    and "\<not> strict_eq (ascii this) True" "\<not> strict_eq (ascii this) False"
  shows "snd (writeFC4 rep mem this a d n k c) = Inr (with_lrc (core6 a (default_code c 4) d n))"
  unfolding snd_writeFC4 by (rule frame6 [OF assms])

lemma frame5:
  assumes "0 \<le> a" "a \<le> 255" "0 \<le> d" "d \<le> 65535"
    and "\<not> strict_eq (ascii this) True" "\<not> strict_eq (ascii this) False"
  shows "snd (writeFC5 rep mem this a d s k) =
           Inr (with_lrc (core6 a 5 d (if s then 0xff00 else 0x0000)))"
proof -
  have w: "(if s then writeUInt16BE buf 0xff00 4 else writeUInt16BE buf 0x0000 4) =
      writeUInt16BE buf (if s then 0xff00 else 0x0000) 4" for buf
    by simp
  have r: "(0::int) \<le> 5" "(5::int) \<le> 255"
    "(0::int) \<le> (if s then 0xff00 else 0x0000)" "(if s then 0xff00 else 0x0000) \<le> (65535::int)"
    by simp_all
  show ?thesis
    unfolding snd_writeFC5 w by (rule frame6 [OF assms(1,2) r(1,2) assms(3,4) r(3,4) assms(5,6)])
qed

lemma frame6w:
  assumes "0 \<le> a" "a \<le> 255" "0 \<le> d" "d \<le> 65535" "0 \<le> v" "v \<le> 65535"
    and "\<not> strict_eq (ascii this) True" "\<not> strict_eq (ascii this) False"
  shows "snd (writeFC6 rep mem this a d v k) = Inr (with_lrc (core6 a 6 d v))"
proof -
  have r: "(0::int) \<le> 6" "(6::int) \<le> 255" by simp_all
  show ?thesis
    unfolding snd_writeFC6 by (rule frame6 [OF assms(1,2) r assms(3-8)])
qed

section \<open>The LRC is the two's complement of the byte sum\<close>

text \<open>
  Claim C7.  The port's \<^verbatim>\<open>calculateLrc(b)\<close> is, for every buffer \<open>b\<close>, the two's
  complement of the 8-bit sum of all bytes of \<open>b\<close> but the last, computed as the
  specification words it.  When the position \<open>len\<close> lies inside the buffer,
  \<^verbatim>\<open>_LRC(buf, len)\<close> returns and stores the two's complement of the 8-bit sum of
  \<open>buf[0..len)\<close>; the sum of those bytes plus the stored byte is 0 modulo 256; and
  computing the LRC again over the same range, with \<^verbatim>\<open>_LRC\<close> or with
  \<^verbatim>\<open>calculateLrc\<close>, reproduces the stored byte.
\<close>

theorem LRC_twos_complement_roundtrip:
  "calculateLrc b = lrc_spec b (length b - 1) \<and>
   (0 \<le> len \<and> len < int (length buf) \<longrightarrow>
     (let l = lrc_spec buf (nat len);
          buf' = buf[nat len := word_of_int l]
      in LRC buf len = Inr (buf', l) \<and>
         (sum_list (map uint (take (nat len) buf')) + uint (buf' ! nat len)) mod 256 = 0 \<and>
         LRC buf' len = Inr (buf', l) \<and>
         calculateLrc (take (nat len + 1) buf') = uint (buf' ! nat len)))"
proof (intro conjI impI, goal_cases)
  case 1
  have n: "nat (int (length b) - 1) = length b - 1" by simp
  show ?case
    unfolding calculateLrc_def Let_def n
    by (simp add: lrc_loop_sum lrc_final lrc_spec_eq)
next
  case 2
  then have a: "0 \<le> len" "len < int (length buf)" by simp_all
  define l where "l = lrc_spec buf (nat len)"
  define buf' where "buf' = buf[nat len := word_of_int l]"
  have n: "nat len < length buf" using a by linarith
  have r: "0 \<le> l" "l \<le> 255" using lrc_spec_range [of buf "nat len"] by (simp_all add: l_def)
  have 1: "LRC buf len = Inr (buf', l)"
    unfolding buf'_def l_def by (rule LRC_eq [OF a])
  have st: "uint (buf' ! nat len) = l"
    using n r by (simp add: buf'_def uint_word_of_int take_bit_eq_mod)
  have tk: "take (nat len) buf' = take (nat len) buf"
    by (simp add: buf'_def)
  have sp: "lrc_spec buf' (nat len) = l"
    by (simp add: lrc_spec_eq tk l_def)
  have 2: "(sum_list (map uint (take (nat len) buf')) + uint (buf' ! nat len)) mod 256 = 0"
    by (simp add: st tk l_def lrc_spec_eq mod_add_right_eq)
  have "LRC buf' len =
      Inr (buf'[nat len := word_of_int (lrc_spec buf' (nat len))], lrc_spec buf' (nat len))"
    using a by (intro LRC_eq) (simp_all add: buf'_def)
  then have 3: "LRC buf' len = Inr (buf', l)"
    by (simp add: sp) (simp add: buf'_def)
  have lt: "length (take (nat len + 1) buf') = nat len + 1"
    using n by (simp add: buf'_def)
  have "calculateLrc (take (nat len + 1) buf') = ((lrc_loop buf' (nat len) XOR 255) + 1) AND 255"
    unfolding calculateLrc_def Let_def lt by (simp add: lrc_loop_take)
  also have "\<dots> = l"
    using n by (simp add: lrc_loop_sum lrc_final tk l_def lrc_spec_eq buf'_def)
  finally have 4: "calculateLrc (take (nat len + 1) buf') = uint (buf' ! nat len)"
    by (simp add: st)
  show ?case
    unfolding Let_def l_def [symmetric] buf'_def [symmetric]
    using 1 2 3 4 by blast
qed

theorem LRC_twos_complement_roundtrip_witness:
  "(0::int) \<le> 6 \<and> 6 < int (length [1, 3, 0, 0, 0, 2, 0 :: byte]) \<and>
   lrc_spec [1, 3, 0, 0, 0, 2, 0] 6 = 0xFA \<and>
   LRC [1, 3, 0, 0, 0, 2, 0] 6 = Inr ([1, 3, 0, 0, 0, 2, 0xFA], 0xFA) \<and>
   LRC [1, 3, 0, 0, 0, 2, 0xFA] 6 = Inr ([1, 3, 0, 0, 0, 2, 0xFA], 0xFA) \<and>
   calculateLrc [1, 3, 0, 0, 0, 2, 0xFA] = 0xFA \<and>
   calculateLrc [1, 6, 0, 1, 0, 3, 0x00] = lrc_spec [1, 6, 0, 1, 0, 3, 0x00] 6 \<and>
   lrc_spec [1, 6, 0, 1, 0, 3, 0x00] 6 = 0xF5"
proof -
  have h: "(0::int) \<le> 6 \<and> 6 < int (length [1, 3, 0, 0, 0, 2, 0 :: byte])" by simp
  have v: "lrc_spec [1, 3, 0, 0, 0, 2, 0] 6 = 0xFA" by code_simp
  have v2: "lrc_spec [1, 6, 0, 1, 0, 3, 0x00] 6 = 0xF5" by code_simp
  note t = LRC_twos_complement_roundtrip [where b = "[1, 6, 0, 1, 0, 3, 0x00]" and len = 6
      and buf = "[1, 3, 0, 0, 0, 2, 0]"]
  have six: "length [1, 6, 0, 1, 0, 3, 0x00 :: byte] - 1 = 6" by simp
  have c: "calculateLrc [1, 6, 0, 1, 0, 3, 0x00] = lrc_spec [1, 6, 0, 1, 0, 3, 0x00] 6"
    using t [THEN conjunct1] unfolding six .
  show ?thesis
    using t [THEN conjunct2, rule_format, OF h] c v2 by (simp add: v Let_def)
qed

section \<open>ASCII transcoding round trip\<close>

text \<open>
  Claim C8.  For every raw frame, whatever the fresh buffers hold, decoding the encoded
  frame gives the frame back; the encoding is the colon, the uppercase hexadecimal digits
  of the frame, carriage return and line feed; and its length is twice the length of the
  frame plus 3.
\<close>

theorem ascii_roundtrip:
  "asciiDecodeResponseBuffer mem' (asciiEncodeRequestBuffer mem frame) = Inr frame \<and>
   asciiEncodeRequestBuffer mem frame =
     map of_char ('':'' @ uppercase_hex frame @ [CHR 0x0D, CHR 0x0A]) \<and>
   length (asciiEncodeRequestBuffer mem frame) = 2 * length frame + 3"
proof -
  let ?w = "asciiEncodeRequestBuffer mem frame"
  have w: "?w = of_char CHR '':'' # to_hex_upper frame @ [of_char CHR 0x0D, of_char CHR 0x0A]"
    by (rule asciiEncodeRequestBuffer_eq)
  have l: "length ?w = 2 * length frame + 3"
    by (simp add: w length_to_hex_upper)
  have n: "(length ?w - 3) div 2 = length frame" "(length ?w - 2) div 2 = length frame"
    by (simp_all add: l)
  have "decode_loop ?w (length frame) (newBuffer mem' (length frame)) = frame"
    unfolding w by (subst decode_loop_prefix) (simp_all add: newBuffer_def)
  then have d: "asciiDecodeResponseBuffer mem' ?w = Inr frame"
    unfolding asciiDecodeResponseBuffer_def Let_def n by (simp add: l)
  have t: "?w = map of_char ('':'' @ uppercase_hex frame @ [CHR 0x0D, CHR 0x0A])"
    by (simp add: w of_char_uppercase_hex)
  show ?thesis using d t l by blast
qed

theorem ascii_roundtrip_witness:
  "asciiEncodeRequestBuffer (\<lambda>i. 0) [1, 6, 0, 1, 0, 3, 0xF5] =
     map of_char '':010600010003F5'' @ [0x0D, 0x0A] \<and>
   asciiDecodeResponseBuffer (\<lambda>i. 0) (map of_char '':010600010003F5'' @ [0x0D, 0x0A]) =
     Inr [1, 6, 0, 1, 0, 3, 0xF5]"
proof -
  have u: "uppercase_hex [1, 6, 0, 1, 0, 3, 0xF5] = ''010600010003F5''"
    by code_simp
  note r = ascii_roundtrip [of "\<lambda>i. 0" "\<lambda>i. 0" "[1, 6, 0, 1, 0, 3, 0xF5]"]
  have e: "asciiEncodeRequestBuffer (\<lambda>i. 0) [1, 6, 0, 1, 0, 3, 0xF5] =
      map of_char '':010600010003F5'' @ [0x0D, 0x0A]"
    using r by (simp add: u)
  have d: "asciiDecodeResponseBuffer (\<lambda>i. 0)
      (asciiEncodeRequestBuffer (\<lambda>i. 0) [1, 6, 0, 1, 0, 3, 0xF5]) = Inr [1, 6, 0, 1, 0, 3, 0xF5]"
    using r by blast
  show ?thesis
    using d unfolding e using e by blast
qed

section \<open>Length and identity mismatches leave the transaction pending\<close>

text \<open>
  Claim C2, as stated, fails: after a read-holding-registers request for two registers of
  unit 1 on an engine as constructed (expected length 8, under either repair of the write
  path), a candidate of 3 bytes and a candidate from unit 2 are both reported to the
  callback, and the expected address, the expected code and the callback are all still
  set afterwards.
\<close>

theorem on_data_mismatch_counterexample:
  "fst (writeFC3 DropOrphanBrace (\<lambda>i. 0) ModbusRTU 1 0 2 (Some 7)) =
     \<lparr>nextAddress = Some 1, nextCode = Some 3, nextLength = 8,
      next_fn = Some 7, unitID = 1, ascii = Undefined\<rparr> \<and>
   fst (writeFC3 OpenElseBlock (\<lambda>i. 0) ModbusRTU 1 0 2 (Some 7)) =
     \<lparr>nextAddress = Some 1, nextCode = Some 3, nextLength = 8,
      next_fn = Some 7, unitID = 1, ascii = Undefined\<rparr> \<and>
   on_data \<lparr>nextAddress = Some 1, nextCode = Some 3, nextLength = 8,
            next_fn = Some 7, unitID = 1, ascii = Undefined\<rparr> [1, 3, 4] =
     \<lparr>engine_of = \<lparr>nextAddress = Some 1, nextCode = Some 3, nextLength = 8,
                    next_fn = Some 7, unitID = 1, ascii = Undefined\<rparr>,
      data_of = [1, 3, 4],
      calls = [(7, Failure (DataLengthError 8 3))],
      thrown = None\<rparr> \<and>
   on_data \<lparr>nextAddress = Some 1, nextCode = Some 3, nextLength = 8,
            next_fn = Some 7, unitID = 1, ascii = Undefined\<rparr>
       [2, 3, 4, 0, 10, 0, 11, 0xE2] =
     \<lparr>engine_of = \<lparr>nextAddress = Some 1, nextCode = Some 3, nextLength = 8,
                    next_fn = Some 7, unitID = 1, ascii = Undefined\<rparr>,
      data_of = [2, 3, 4, 0, 10, 0, 11, 0xE2],
      calls = [(7, Failure (UnexpectedDataError (Some 1) 2))],
      thrown = None\<rparr>"
  by code_simp

text \<open>
  Claim C2, amended.  On a length mismatch, and on an address or code mismatch of a
  candidate of the expected length, the handler reports the error to the pending callback
  (if there is one) and changes nothing: the expected address, code and length and the
  callback stay as they were.  The expected address, the expected code and the callback
  are cleared exactly when both tests pass, before the checksum is looked at.
\<close>

theorem on_data_mismatch_keeps_state:
  "(int (length data) \<noteq> nextLength modbus \<longrightarrow>
      on_data modbus data =
        \<lparr>engine_of = modbus, data_of = data,
         calls = call_next (next_fn modbus)
                   (Failure (DataLengthError (nextLength modbus) (length data))),
         thrown = None\<rparr>) \<and>
   (int (length data) = nextLength modbus \<and> 2 \<le> length data \<and>
    (Some (uint (data ! 0)) \<noteq> nextAddress modbus \<or> Some (uint (data ! 1)) \<noteq> nextCode modbus) \<longrightarrow>
      on_data modbus data =
        \<lparr>engine_of = modbus, data_of = data,
         calls = call_next (next_fn modbus)
                   (Failure (UnexpectedDataError (nextAddress modbus) (uint (data ! 0)))),
         thrown = None\<rparr>) \<and>
   (passes_checks modbus data \<longrightarrow> engine_of (on_data modbus data) = cleared modbus)"
proof (intro conjI impI)
  assume "int (length data) \<noteq> nextLength modbus"
  then show "on_data modbus data =
        \<lparr>engine_of = modbus, data_of = data,
         calls = call_next (next_fn modbus)
                   (Failure (DataLengthError (nextLength modbus) (length data))),
         thrown = None\<rparr>"
    by (simp add: on_data_length_mismatch finish_def)
next
  assume "int (length data) = nextLength modbus \<and> 2 \<le> length data \<and>
    (Some (uint (data ! 0)) \<noteq> nextAddress modbus \<or> Some (uint (data ! 1)) \<noteq> nextCode modbus)"
  then show "on_data modbus data =
        \<lparr>engine_of = modbus, data_of = data,
         calls = call_next (next_fn modbus)
                   (Failure (UnexpectedDataError (nextAddress modbus) (uint (data ! 0)))),
         thrown = None\<rparr>"
    by (simp add: on_data_identity_mismatch finish_def)
next
  assume p: "passes_checks modbus data"
  show "engine_of (on_data modbus data) = cleared modbus"
  proof (cases "ascii modbus = JBool False")
    case True
    with p show ?thesis by (simp add: passes_checks_def on_data_crc)
  next
    case False
    with p show ?thesis by (simp add: passes_checks_def on_data_lrc)
  qed
qed

theorem on_data_mismatch_keeps_state_witness:
  "on_data \<lparr>nextAddress = Some 1, nextCode = Some 3, nextLength = 8, next_fn = Some 7,
            unitID = 1, ascii = Undefined\<rparr> [1, 3, 4] =
     \<lparr>engine_of = \<lparr>nextAddress = Some 1, nextCode = Some 3, nextLength = 8,
                    next_fn = Some 7, unitID = 1, ascii = Undefined\<rparr>,
      data_of = [1, 3, 4],
      calls = [(7, Failure (DataLengthError 8 3))],
      thrown = None\<rparr> \<and>
   on_data \<lparr>nextAddress = Some 1, nextCode = Some 3, nextLength = 8, next_fn = Some 7,
            unitID = 1, ascii = Undefined\<rparr> [2, 3, 4, 0, 10, 0, 11, 0xE2] =
     \<lparr>engine_of = \<lparr>nextAddress = Some 1, nextCode = Some 3, nextLength = 8,
                    next_fn = Some 7, unitID = 1, ascii = Undefined\<rparr>,
      data_of = [2, 3, 4, 0, 10, 0, 11, 0xE2],
      calls = [(7, Failure (UnexpectedDataError (Some 1) 2))],
      thrown = None\<rparr> \<and>
   engine_of (on_data \<lparr>nextAddress = Some 1, nextCode = Some 3, nextLength = 8,
                       next_fn = Some 7, unitID = 1, ascii = Undefined\<rparr>
                [1, 3, 4, 0, 10, 0, 11, 0xE3]) =
     \<lparr>nextAddress = None, nextCode = None, nextLength = 8, next_fn = None,
      unitID = 1, ascii = Undefined\<rparr>"
proof -
  let ?e = "\<lparr>nextAddress = Some 1, nextCode = Some 3, nextLength = 8, next_fn = Some 7,
            unitID = 1, ascii = Undefined\<rparr>"
  have 1: "int (length [1, 3, 4 :: byte]) \<noteq> nextLength ?e" by simp
  have 2: "int (length [2, 3, 4, 0, 10, 0, 11, 0xE2 :: byte]) = nextLength ?e \<and>
      2 \<le> length [2, 3, 4, 0, 10, 0, 11, 0xE2 :: byte] \<and>
      (Some (uint ([2, 3, 4, 0, 10, 0, 11, 0xE2 :: byte] ! 0)) \<noteq> nextAddress ?e \<or>
       Some (uint ([2, 3, 4, 0, 10, 0, 11, 0xE2 :: byte] ! 1)) \<noteq> nextCode ?e)" by simp
  have 3: "passes_checks ?e [1, 3, 4, 0, 10, 0, 11, 0xE3]" by (simp add: passes_checks_def)
  show ?thesis
    using on_data_mismatch_keeps_state [of "[1, 3, 4]" ?e, THEN conjunct1, rule_format, OF 1]
      on_data_mismatch_keeps_state [of "[2, 3, 4, 0, 10, 0, 11, 0xE2]" ?e,
        THEN conjunct2, THEN conjunct1, rule_format, OF 2]
      on_data_mismatch_keeps_state [of "[1, 3, 4, 0, 10, 0, 11, 0xE3]" ?e,
        THEN conjunct2, THEN conjunct2, rule_format, OF 3]
    by (simp add: call_next_def cleared_def)
qed

section \<open>Coil responses decode to eight booleans per payload byte\<close>

text \<open>
  Claim C3, as stated, fails: the request asks unit 1 for 3 coils (on an engine as
  constructed, under either repair of the write path), the response carries one payload
  byte and a matching LRC, and the callback receives 8 booleans.
\<close>

theorem coils_count_counterexample:
  "writeFC1 DropOrphanBrace (\<lambda>i. 0) ModbusRTU 1 0 3 (Some 7) =
     (\<lparr>nextAddress = Some 1, nextCode = Some 1, nextLength = 5, next_fn = Some 7,
       unitID = 1, ascii = Undefined\<rparr>, Inr [1, 1, 0, 0, 0, 3, 0xFB]) \<and>
   writeFC1 OpenElseBlock (\<lambda>i. 0) ModbusRTU 1 0 3 (Some 7) =
     (\<lparr>nextAddress = Some 1, nextCode = Some 1, nextLength = 5, next_fn = Some 7,
       unitID = 1, ascii = Undefined\<rparr>, Inr [1, 1, 0, 0, 0, 3, 0xFB]) \<and>
   calls (on_data \<lparr>nextAddress = Some 1, nextCode = Some 1, nextLength = 5, next_fn = Some 7,
                   unitID = 1, ascii = Undefined\<rparr> [1, 1, 1, 5, 0xF8]) =
     [(7, Success (Coils [True, False, True, False, False, False, False, False] [5]))] \<and>
   length [True, False, True, False, False, False, False, False] \<noteq> (3::nat)"
proof -
  have 1: "writeFC1 DropOrphanBrace (\<lambda>i. 0) ModbusRTU 1 0 3 (Some 7) =
     (\<lparr>nextAddress = Some 1, nextCode = Some 1, nextLength = 5, next_fn = Some 7,
       unitID = 1, ascii = Undefined\<rparr>, Inr [1, 1, 0, 0, 0, 3, 0xFB])"
    by code_simp
  have 2: "writeFC1 OpenElseBlock (\<lambda>i. 0) ModbusRTU 1 0 3 (Some 7) =
     (\<lparr>nextAddress = Some 1, nextCode = Some 1, nextLength = 5, next_fn = Some 7,
       unitID = 1, ascii = Undefined\<rparr>, Inr [1, 1, 0, 0, 0, 3, 0xFB])"
    by code_simp
  have 3: "calls (on_data \<lparr>nextAddress = Some 1, nextCode = Some 1, nextLength = 5,
                   next_fn = Some 7, unitID = 1, ascii = Undefined\<rparr> [1, 1, 1, 5, 0xF8]) =
     [(7, Success (Coils [True, False, True, False, False, False, False, False] [5]))]"
    by code_simp
  have 4: "length [True, False, True, False, False, False, False, False] \<noteq> (3::nat)"
    by simp
  show ?thesis
    by (intro conjI 1 2 3 4)
qed

text \<open>
  Claim C3, amended.  For every validated response to a pending FC 1 or FC 2 request
  (a frame of the expected length, address and code whose stored checksum is the one the
  engine computes) of at least 3 bytes, with byte count field \<open>m\<close> at index 2, the
  handler clears the transaction, leaves the frame as it is and delivers to the callback
  exactly \<open>8 m\<close> booleans, eight per payload byte in ascending bit order, least
  significant bit first (a payload byte beyond the end of the frame reads as zeros),
  together with the raw payload slice \<open>data[3 .. 3 + m)\<close>.  The number of requested bits
  plays no part.  A validated frame of fewer than 3 bytes has no byte count: the parser
  throws and nothing is delivered.  Conversely, a result delivered for such a request is
  always of this form.
\<close>

theorem coils_eight_per_payload_byte:
  "(passes_checks modbus data \<and> stored_checksum_matches modbus data \<and>
    (nextCode modbus = Some 1 \<or> nextCode modbus = Some 2) \<and> 3 \<le> length data \<longrightarrow>
      on_data modbus data =
        \<lparr>engine_of = cleared modbus, data_of = data,
         calls = call_next (next_fn modbus)
                   (Success (Coils (coils_loop data (unat (data ! 2)))
                                   (slice data 3 (3 + unat (data ! 2))))),
         thrown = None\<rparr>) \<and>
   (passes_checks modbus data \<and> stored_checksum_matches modbus data \<and>
    (nextCode modbus = Some 1 \<or> nextCode modbus = Some 2) \<and> length data < 3 \<longrightarrow>
      on_data modbus data =
        \<lparr>engine_of = cleared modbus, data_of = data, calls = [],
         thrown = Some RangeError\<rparr>) \<and>
   slice data 3 (3 + unat (data ! 2)) = take (unat (data ! 2)) (drop 3 data) \<and>
   length (coils_loop data (unat (data ! 2))) = 8 * unat (data ! 2) \<and>
   (\<forall>j < 8 * unat (data ! 2).
      coils_loop data (unat (data ! 2)) ! j =
        (j div 8 + 3 < length data \<and> bit (data ! (j div 8 + 3)) (j mod 8))) \<and>
   (calls (on_data modbus data) = [(k, Success r)] \<and>
    (nextCode modbus = Some 1 \<or> nextCode modbus = Some 2) \<longrightarrow>
      3 \<le> length data \<and>
      r = Coils (coils_loop data (unat (data ! 2))) (slice data 3 (3 + unat (data ! 2))))"
proof -
  let ?m = "unat (data ! 2)"
  let ?res = "Success (Coils (coils_loop data ?m) (slice data 3 (3 + ?m)))"
  have valid: "on_data modbus data = finish (cleared modbus) data (readFC2 data (next_fn modbus))"
    if p: "passes_checks modbus data" and v: "stored_checksum_matches modbus data"
      and fc: "nextCode modbus = Some 1 \<or> nextCode modbus = Some 2"
  proof -
    have "uint (data ! 1) = 2 \<or> uint (data ! 1) = 1"
      using p fc by (auto simp: passes_checks_def)
    then show ?thesis
      using on_data_valid [OF p v] by (auto simp: parse_def)
  qed
  have rd: "readFC2 data nxt = Inr (call_next nxt ?res)" if "3 \<le> length data" for nxt
  proof -
    have "readUInt8 data 2 = Inr (uint (data ! 2))"
      using that by (simp add: readUInt8_def)
    then show ?thesis
      by (simp add: readFC2_def and_then_def Let_def)
  qed
  have rs: "readFC2 data nxt = Inl RangeError" if "length data < 3" for nxt
    using that by (simp add: readFC2_def readUInt8_def and_then_def)
  have A: "passes_checks modbus data \<and> stored_checksum_matches modbus data \<and>
    (nextCode modbus = Some 1 \<or> nextCode modbus = Some 2) \<and> 3 \<le> length data \<longrightarrow>
      on_data modbus data =
        \<lparr>engine_of = cleared modbus, data_of = data,
         calls = call_next (next_fn modbus) ?res, thrown = None\<rparr>"
    using valid rd by (simp add: finish_def)
  have B: "passes_checks modbus data \<and> stored_checksum_matches modbus data \<and>
    (nextCode modbus = Some 1 \<or> nextCode modbus = Some 2) \<and> length data < 3 \<longrightarrow>
      on_data modbus data =
        \<lparr>engine_of = cleared modbus, data_of = data, calls = [],
         thrown = Some RangeError\<rparr>"
    using valid rs by (simp add: finish_def)
  have C: "slice data 3 (3 + ?m) = take ?m (drop 3 data)"
    by (simp add: slice_def drop_take)
  have D: "length (coils_loop data ?m) = 8 * ?m"
    by (rule length_coils_loop)
  have E: "\<forall>j < 8 * ?m. coils_loop data ?m ! j =
      (j div 8 + 3 < length data \<and> bit (data ! (j div 8 + 3)) (j mod 8))"
    by (simp add: coils_loop_nth bit_byteAt)
  have F: "calls (on_data modbus data) = [(k, Success r)] \<and>
    (nextCode modbus = Some 1 \<or> nextCode modbus = Some 2) \<longrightarrow>
      3 \<le> length data \<and> r = Coils (coils_loop data ?m) (slice data 3 (3 + ?m))"
  proof (intro impI, elim conjE)
    assume c: "calls (on_data modbus data) = [(k, Success r)]"
      and fc: "nextCode modbus = Some 1 \<or> nextCode modbus = Some 2"
    have p: "passes_checks modbus data"
      using on_data_cases [of modbus data] c by auto
    have v: "stored_checksum_matches modbus data"
    proof (rule ccontr)
      assume "\<not> stored_checksum_matches modbus data"
      from on_data_invalid [OF p this] c show False
        by (simp add: call_next_def split: option.splits)
    qed
    have l3: "3 \<le> length data"
    proof (rule ccontr)
      assume "\<not> 3 \<le> length data"
      then have "length data < 3" by simp
      from rs [OF this] valid [OF p v fc] c show False by simp
    qed
    from rd [OF l3] valid [OF p v fc] c
    have "call_next (next_fn modbus) ?res = [(k, Success r)]" by simp
    then have "r = Coils (coils_loop data ?m) (slice data 3 (3 + ?m))"
      by (simp add: call_next_def split: option.splits)
    with l3 show "3 \<le> length data \<and> r = Coils (coils_loop data ?m) (slice data 3 (3 + ?m))"
      by simp
  qed
  show ?thesis
    by (intro conjI A B C D E F)
qed

theorem coils_eight_per_payload_byte_witness:
  "on_data \<lparr>nextAddress = Some 1, nextCode = Some 1, nextLength = 5, next_fn = Some 7,
            unitID = 1, ascii = Undefined\<rparr> [1, 1, 1, 5, 0xF8] =
     \<lparr>engine_of = \<lparr>nextAddress = None, nextCode = None, nextLength = 5, next_fn = None,
                    unitID = 1, ascii = Undefined\<rparr>,
      data_of = [1, 1, 1, 5, 0xF8],
      calls = [(7, Success (Coils [True, False, True, False, False, False, False, False] [5]))],
      thrown = None\<rparr> \<and>
   on_data \<lparr>nextAddress = Some 1, nextCode = Some 2, nextLength = 6, next_fn = Some 7,
            unitID = 1, ascii = JBool False\<rparr> [1, 2, 1, 6, 0x21, 0x8A] =
     \<lparr>engine_of = \<lparr>nextAddress = None, nextCode = None, nextLength = 6, next_fn = None,
                    unitID = 1, ascii = JBool False\<rparr>,
      data_of = [1, 2, 1, 6, 0x21, 0x8A],
      calls = [(7, Success (Coils [False, True, True, False, False, False, False, False] [6]))],
      thrown = None\<rparr> \<and>
   on_data \<lparr>nextAddress = Some 254, nextCode = Some 2, nextLength = 2, next_fn = Some 7,
            unitID = 1, ascii = Undefined\<rparr> [254, 2] =
     \<lparr>engine_of = \<lparr>nextAddress = None, nextCode = None, nextLength = 2, next_fn = None,
                    unitID = 1, ascii = Undefined\<rparr>,
      data_of = [254, 2], calls = [], thrown = Some RangeError\<rparr>"
proof -
  let ?e1 = "\<lparr>nextAddress = Some 1, nextCode = Some 1, nextLength = 5, next_fn = Some 7,
            unitID = 1, ascii = Undefined\<rparr>"
  let ?d1 = "[1, 1, 1, 5, 0xF8] :: byte list"
  let ?e2 = "\<lparr>nextAddress = Some 1, nextCode = Some 2, nextLength = 6, next_fn = Some 7,
            unitID = 1, ascii = JBool False\<rparr>"
  let ?d2 = "[1, 2, 1, 6, 0x21, 0x8A] :: byte list"
  let ?e3 = "\<lparr>nextAddress = Some 254, nextCode = Some 2, nextLength = 2, next_fn = Some 7,
            unitID = 1, ascii = Undefined\<rparr>"
  let ?d3 = "[254, 2] :: byte list"
  have p: "passes_checks ?e1 ?d1" "passes_checks ?e2 ?d2" "passes_checks ?e3 ?d3"
    by (simp_all add: passes_checks_def)
  have m1: "stored_checksum_matches ?e1 ?d1" by code_simp
  have m2: "stored_checksum_matches ?e2 ?d2" by code_simp
  have m3: "stored_checksum_matches ?e3 ?d3" by code_simp
  have h1: "passes_checks ?e1 ?d1 \<and> stored_checksum_matches ?e1 ?d1 \<and>
      (nextCode ?e1 = Some 1 \<or> nextCode ?e1 = Some 2) \<and> 3 \<le> length ?d1"
    using p(1) m1 by simp
  have h2: "passes_checks ?e2 ?d2 \<and> stored_checksum_matches ?e2 ?d2 \<and>
      (nextCode ?e2 = Some 1 \<or> nextCode ?e2 = Some 2) \<and> 3 \<le> length ?d2"
    using p(2) m2 by simp
  have h3: "passes_checks ?e3 ?d3 \<and> stored_checksum_matches ?e3 ?d3 \<and>
      (nextCode ?e3 = Some 1 \<or> nextCode ?e3 = Some 2) \<and> length ?d3 < 3"
    using p(3) m3 by simp
  have c1: "coils_loop ?d1 (unat (?d1 ! 2)) =
      [True, False, True, False, False, False, False, False]"
    by code_simp
  have c2: "coils_loop ?d2 (unat (?d2 ! 2)) =
      [False, True, True, False, False, False, False, False]"
    by code_simp
  have s1: "slice ?d1 3 (3 + unat (?d1 ! 2)) = [5]" by code_simp
  have s2: "slice ?d2 3 (3 + unat (?d2 ! 2)) = [6]" by code_simp
  have 1: "on_data ?e1 ?d1 =
     \<lparr>engine_of = \<lparr>nextAddress = None, nextCode = None, nextLength = 5, next_fn = None,
                    unitID = 1, ascii = Undefined\<rparr>,
      data_of = ?d1,
      calls = [(7, Success (Coils [True, False, True, False, False, False, False, False] [5]))],
      thrown = None\<rparr>"
    using coils_eight_per_payload_byte [where modbus = ?e1 and data = ?d1,
        THEN conjunct1, rule_format, OF h1]
    unfolding c1 s1 by (simp add: cleared_def call_next_def)
  have 2: "on_data ?e2 ?d2 =
     \<lparr>engine_of = \<lparr>nextAddress = None, nextCode = None, nextLength = 6, next_fn = None,
                    unitID = 1, ascii = JBool False\<rparr>,
      data_of = ?d2,
      calls = [(7, Success (Coils [False, True, True, False, False, False, False, False] [6]))],
      thrown = None\<rparr>"
    using coils_eight_per_payload_byte [where modbus = ?e2 and data = ?d2,
        THEN conjunct1, rule_format, OF h2]
    unfolding c2 s2 by (simp add: cleared_def call_next_def)
  have 3: "on_data ?e3 ?d3 =
     \<lparr>engine_of = \<lparr>nextAddress = None, nextCode = None, nextLength = 2, next_fn = None,
                    unitID = 1, ascii = Undefined\<rparr>,
      data_of = ?d3, calls = [], thrown = Some RangeError\<rparr>"
    using coils_eight_per_payload_byte [where modbus = ?e3 and data = ?d3,
        THEN conjunct2, THEN conjunct1, rule_format, OF h3]
    by (simp add: cleared_def)
  show ?thesis
    by (intro conjI 1 2 3)
qed

section \<open>What the checksum functions write\<close>

text \<open>
  Claim C5, as stated, fails in its second half: a frame of the expected length and
  identity whose last byte is not its LRC comes back from the handler with the last byte
  replaced by the LRC the engine computed.
\<close>

theorem validation_overwrites_counterexample:
  "fst (writeFC3 DropOrphanBrace (\<lambda>i. 0) ModbusRTU 1 0 2 (Some 7)) =
     \<lparr>nextAddress = Some 1, nextCode = Some 3, nextLength = 8,
      next_fn = Some 7, unitID = 1, ascii = Undefined\<rparr> \<and>
   fst (writeFC3 OpenElseBlock (\<lambda>i. 0) ModbusRTU 1 0 2 (Some 7)) =
     \<lparr>nextAddress = Some 1, nextCode = Some 3, nextLength = 8,
      next_fn = Some 7, unitID = 1, ascii = Undefined\<rparr> \<and>
   data_of (on_data \<lparr>nextAddress = Some 1, nextCode = Some 3, nextLength = 8,
                     next_fn = Some 7, unitID = 1, ascii = Undefined\<rparr>
              [1, 3, 4, 0, 10, 0, 11, 0xE4]) = [1, 3, 4, 0, 10, 0, 11, 0xE3] \<and>
   calls (on_data \<lparr>nextAddress = Some 1, nextCode = Some 3, nextLength = 8,
                   next_fn = Some 7, unitID = 1, ascii = Undefined\<rparr>
              [1, 3, 4, 0, 10, 0, 11, 0xE4]) = [(7, Failure LRCError)] \<and>
   [1, 3, 4, 0, 10, 0, 11, 0xE3] \<noteq> [1, 3, 4, 0, 10, 0, 11, 0xE4 :: byte]"
  by code_simp

text \<open>
  Claim C5, amended.  \<^verbatim>\<open>_CRC16(buf, len)\<close> and \<^verbatim>\<open>_LRC(buf, len)\<close>, when they return,
  have written the checksum at position \<open>len\<close> (two bytes, low byte first, for the CRC;
  one byte for the LRC) and nothing else.  The data handler never changes the length of
  the frame it is given nor any byte before the checksum position; it leaves the frame
  entirely unchanged when the frame fails the length or identity test and when the stored
  checksum equals the computed one; and when the stored checksum differs, the frame comes
  back changed, with the computed checksum in its place.
\<close>

theorem checksum_writes_only_checksum:
  "(CRC16 buf len = Inr (buf', crc) \<longrightarrow>
      0 \<le> len \<and> len + 2 \<le> int (length buf) \<and>
      buf' = buf[nat len := word_of_int (crc mod 256), nat len + 1 := word_of_int (crc div 256)] \<and>
      take (nat len) buf' = take (nat len) buf \<and>
      drop (nat len + 2) buf' = drop (nat len + 2) buf) \<and>
   (LRC buf len = Inr (buf'', l) \<longrightarrow>
      0 \<le> len \<and> len < int (length buf) \<and>
      buf'' = buf[nat len := word_of_int l] \<and>
      take (nat len) buf'' = take (nat len) buf \<and>
      drop (nat len + 1) buf'' = drop (nat len + 1) buf) \<and>
   length (data_of (on_data modbus data)) = length data \<and>
   take (length data - 2) (data_of (on_data modbus data)) = take (length data - 2) data \<and>
   (\<not> strict_eq (ascii modbus) False \<longrightarrow>
      take (length data - 1) (data_of (on_data modbus data)) = take (length data - 1) data) \<and>
   (\<not> passes_checks modbus data \<or> stored_checksum_matches modbus data \<longrightarrow>
      data_of (on_data modbus data) = data) \<and>
   (passes_checks modbus data \<and> \<not> stored_checksum_matches modbus data \<longrightarrow>
      data_of (on_data modbus data) \<noteq> data \<and>
      data_of (on_data modbus data) =
        (if strict_eq (ascii modbus) False
         then data[length data - 2 := word_of_int (crc_loop data (length data - 2) mod 256),
                   length data - 1 := word_of_int (crc_loop data (length data - 2) div 256)]
         else data[length data - 1 := word_of_int (lrc_spec data (length data - 1))]))"
proof -
  have A: "CRC16 buf len = Inr (buf', crc) \<longrightarrow>
      0 \<le> len \<and> len + 2 \<le> int (length buf) \<and>
      buf' = buf[nat len := word_of_int (crc mod 256), nat len + 1 := word_of_int (crc div 256)] \<and>
      take (nat len) buf' = take (nat len) buf \<and>
      drop (nat len + 2) buf' = drop (nat len + 2) buf"
  proof (cases "0 \<le> len \<and> len + 2 \<le> int (length buf)")
    case True
    then show ?thesis by (auto simp: CRC16_eq)
  next
    case False
    then show ?thesis by (simp add: CRC16_fails)
  qed
  have B: "LRC buf len = Inr (buf'', l) \<longrightarrow>
      0 \<le> len \<and> len < int (length buf) \<and>
      buf'' = buf[nat len := word_of_int l] \<and>
      take (nat len) buf'' = take (nat len) buf \<and>
      drop (nat len + 1) buf'' = drop (nat len + 1) buf"
  proof (cases "0 \<le> len \<and> len < int (length buf)")
    case True
    then show ?thesis by (auto simp: LRC_eq)
  next
    case False
    then show ?thesis by (simp add: LRC_fails)
  qed
  have same: "\<not> passes_checks modbus data \<or> stored_checksum_matches modbus data \<longrightarrow>
      data_of (on_data modbus data) = data"
  proof (intro impI)
    assume a: "\<not> passes_checks modbus data \<or> stored_checksum_matches modbus data"
    show "data_of (on_data modbus data) = data"
    proof (cases "passes_checks modbus data")
      case True
      with a have "stored_checksum_matches modbus data" by blast
      from on_data_valid [OF True this] show ?thesis by simp
    next
      case False
      with on_data_cases [of modbus data] show ?thesis by blast
    qed
  qed
  have diff: "passes_checks modbus data \<and> \<not> stored_checksum_matches modbus data \<longrightarrow>
      data_of (on_data modbus data) \<noteq> data \<and>
      data_of (on_data modbus data) =
        (if strict_eq (ascii modbus) False
         then data[length data - 2 := word_of_int (crc_loop data (length data - 2) mod 256),
                   length data - 1 := word_of_int (crc_loop data (length data - 2) div 256)]
         else data[length data - 1 := word_of_int (lrc_spec data (length data - 1))])"
  proof (intro impI, elim conjE)
    assume p: "passes_checks modbus data" and m: "\<not> stored_checksum_matches modbus data"
    have l2: "2 \<le> length data" using p by (simp add: passes_checks_def)
    note d = on_data_invalid [OF p m]
    show "data_of (on_data modbus data) \<noteq> data \<and>
      data_of (on_data modbus data) =
        (if strict_eq (ascii modbus) False
         then data[length data - 2 := word_of_int (crc_loop data (length data - 2) mod 256),
                   length data - 1 := word_of_int (crc_loop data (length data - 2) div 256)]
         else data[length data - 1 := word_of_int (lrc_spec data (length data - 1))])"
    proof (cases "ascii modbus = JBool False")
      case True
      let ?crc = "crc_loop data (length data - 2)"
      let ?d = "data[length data - 2 := word_of_int (?crc mod 256),
                   length data - 1 := word_of_int (?crc div 256)]"
      have ne: "uint (data ! (length data - 2)) + uint (data ! (length data - 1)) * 256 \<noteq> ?crc"
        using m True by (simp add: stored_checksum_matches_def strict_eq_def)
      have "?d \<noteq> data"
      proof
        assume e: "?d = data"
        have "?d ! (length data - 2) = (word_of_int (?crc mod 256) :: byte)"
             "?d ! (length data - 1) = (word_of_int (?crc div 256) :: byte)"
          using l2 by (simp_all add: nth_list_update)
        then have "data ! (length data - 2) = (word_of_int (?crc mod 256) :: byte)"
             "data ! (length data - 1) = (word_of_int (?crc div 256) :: byte)"
          unfolding e by simp_all
        moreover have "0 \<le> ?crc div 256" "?crc div 256 < 256"
          using crc_loop_range [of data "length data - 2"] div256_range [of "?crc"] by simp_all
        ultimately have "uint (data ! (length data - 2)) = ?crc mod 256"
            "uint (data ! (length data - 1)) = ?crc div 256"
          by (simp_all add: uint_word_of_int take_bit_eq_mod)
        with ne show False by simp
      qed
      then show ?thesis using d True by (simp add: strict_eq_def)
    next
      case False
      let ?l = "lrc_spec data (length data - 1)"
      have ne: "uint (data ! (length data - 1)) \<noteq> ?l"
        using m False by (simp add: stored_checksum_matches_def strict_eq_def)
      have "data[length data - 1 := word_of_int ?l] \<noteq> data"
      proof
        assume e: "data[length data - 1 := word_of_int ?l] = data"
        have "data[length data - 1 := word_of_int ?l] ! (length data - 1) = (word_of_int ?l :: byte)"
          using l2 by simp
        then have "data ! (length data - 1) = (word_of_int ?l :: byte)"
          unfolding e by simp
        then have "uint (data ! (length data - 1)) = ?l"
          using lrc_spec_range [of data "length data - 1"]
          by (simp add: uint_word_of_int take_bit_eq_mod)
        with ne show False by simp
      qed
      then show ?thesis using d False by (simp add: strict_eq_def)
    qed
  qed
  have len: "length (data_of (on_data modbus data)) = length data"
  proof (cases "passes_checks modbus data \<and> \<not> stored_checksum_matches modbus data")
    case True
    with diff show ?thesis by simp
  next
    case False
    with same show ?thesis by simp
  qed
  have pre2: "take (length data - 2) (data_of (on_data modbus data)) = take (length data - 2) data"
  proof (cases "passes_checks modbus data \<and> \<not> stored_checksum_matches modbus data")
    case True
    with diff show ?thesis by simp
  next
    case False
    with same show ?thesis by simp
  qed
  have pre1: "\<not> strict_eq (ascii modbus) False \<longrightarrow>
      take (length data - 1) (data_of (on_data modbus data)) = take (length data - 1) data"
  proof (cases "passes_checks modbus data \<and> \<not> stored_checksum_matches modbus data")
    case True
    with diff show ?thesis by simp
  next
    case False
    with same show ?thesis by simp
  qed
  show ?thesis
    by (intro conjI A B len pre2 pre1 same diff)
qed

theorem checksum_writes_only_checksum_witness:
  "CRC16 [1, 3, 0, 0, 0, 2, 0, 0] 6 = Inr ([1, 3, 0, 0, 0, 2, 0xC4, 0x0B], 0x0BC4) \<and>
   take (nat 6) [1, 3, 0, 0, 0, 2, 0xC4, 0x0B] = take (nat 6) [1, 3, 0, 0, 0, 2, 0, 0 :: byte] \<and>
   LRC [1, 3, 0, 0, 0, 2, 0] 6 = Inr ([1, 3, 0, 0, 0, 2, 0xFA], 0xFA) \<and>
   take (nat 6) [1, 3, 0, 0, 0, 2, 0xFA] = take (nat 6) [1, 3, 0, 0, 0, 2, 0 :: byte] \<and>
   passes_checks
     \<lparr>nextAddress = Some 1, nextCode = Some 3, nextLength = 8, next_fn = Some 7,
      unitID = 1, ascii = Undefined\<rparr> [1, 3, 4, 0, 10, 0, 11, 0xE3] \<and>
   stored_checksum_matches
     \<lparr>nextAddress = Some 1, nextCode = Some 3, nextLength = 8, next_fn = Some 7,
      unitID = 1, ascii = Undefined\<rparr> [1, 3, 4, 0, 10, 0, 11, 0xE3] \<and>
   data_of (on_data
     \<lparr>nextAddress = Some 1, nextCode = Some 3, nextLength = 8, next_fn = Some 7,
      unitID = 1, ascii = Undefined\<rparr> [1, 3, 4, 0, 10, 0, 11, 0xE3]) =
     [1, 3, 4, 0, 10, 0, 11, 0xE3] \<and>
   \<not> stored_checksum_matches
     \<lparr>nextAddress = Some 1, nextCode = Some 3, nextLength = 8, next_fn = Some 7,
      unitID = 1, ascii = Undefined\<rparr> [1, 3, 4, 0, 10, 0, 11, 0xE4] \<and>
   data_of (on_data
     \<lparr>nextAddress = Some 1, nextCode = Some 3, nextLength = 8, next_fn = Some 7,
      unitID = 1, ascii = Undefined\<rparr> [1, 3, 4, 0, 10, 0, 11, 0xE4]) \<noteq>
     [1, 3, 4, 0, 10, 0, 11, 0xE4]"
proof -
  let ?e = "\<lparr>nextAddress = Some 1, nextCode = Some 3, nextLength = 8, next_fn = Some 7,
      unitID = 1, ascii = Undefined\<rparr>"
  let ?good = "[1, 3, 4, 0, 10, 0, 11, 0xE3 :: byte]"
  let ?bad = "[1, 3, 4, 0, 10, 0, 11, 0xE4 :: byte]"
  have c: "CRC16 [1, 3, 0, 0, 0, 2, 0, 0] 6 = Inr ([1, 3, 0, 0, 0, 2, 0xC4, 0x0B], 0x0BC4)"
    by code_simp
  have l: "LRC [1, 3, 0, 0, 0, 2, 0] 6 = Inr ([1, 3, 0, 0, 0, 2, 0xFA], 0xFA)"
    by code_simp
  have pg: "passes_checks ?e ?good" and pb: "passes_checks ?e ?bad"
    by (simp_all add: passes_checks_def)
  have mg: "stored_checksum_matches ?e ?good"
    by code_simp
  have mb: "\<not> stored_checksum_matches ?e ?bad"
    by code_simp
  note g = checksum_writes_only_checksum
    [where buf = "[1, 3, 0, 0, 0, 2, 0, 0]" and len = 6
       and buf' = "[1, 3, 0, 0, 0, 2, 0xC4, 0x0B]" and crc = "0x0BC4"
       and buf'' = "[1, 3, 0, 0, 0, 2, 0xFA]" and l = "0xFA"
       and modbus = ?e and data = ?good]
  note b = checksum_writes_only_checksum
    [where buf = "[1, 3, 0, 0, 0, 2, 0]" and len = 6
       and buf' = "[1, 3, 0, 0, 0, 2, 0xC4, 0x0B]" and crc = "0x0BC4"
       and buf'' = "[1, 3, 0, 0, 0, 2, 0xFA]" and l = "0xFA"
       and modbus = ?e and data = ?bad]
  have 1: "take (nat 6) [1, 3, 0, 0, 0, 2, 0xC4, 0x0B] = take (nat 6) [1, 3, 0, 0, 0, 2, 0, 0 :: byte]"
    using g c by blast
  have 2: "take (nat 6) [1, 3, 0, 0, 0, 2, 0xFA] = take (nat 6) [1, 3, 0, 0, 0, 2, 0 :: byte]"
    using b l by blast
  have 3: "data_of (on_data ?e ?good) = ?good"
    using g mg by blast
  have 4: "data_of (on_data ?e ?bad) \<noteq> ?bad"
    using b pb mb by blast
  show ?thesis
    by (intro conjI c 1 l 2 pg mg 3 mb 4)
qed

section \<open>Expected response length of a coil read\<close>

text \<open>
  Claim C4, as stated, fails: for a request for one coil the specification's formulas give
  6 (binary) and 11 (ASCII), while the engine as constructed records 5 under either repair
  of the write path, as does an engine whose ascii field is true, and the ASCII port,
  given the request the engine wrote, records 13.
\<close>

theorem expected_length_counterexample:
  "spec_binary_length 1 = 6 \<and>
   spec_ascii_length 1 = 11 \<and>
   nextLength (fst (writeFC1 DropOrphanBrace (\<lambda>i. 0) ModbusRTU 1 0 1 (Some 7))) = 5 \<and>
   nextLength (fst (writeFC1 OpenElseBlock (\<lambda>i. 0) ModbusRTU 1 0 1 (Some 7))) = 5 \<and>
   nextLength (fst (writeFC1 DropOrphanBrace (\<lambda>i. 0) (ModbusRTU\<lparr>ascii := JBool True\<rparr>)
                      1 0 1 (Some 7))) = 5 \<and>
   nextLength (fst (writeFC1 OpenElseBlock (\<lambda>i. 0) (ModbusRTU\<lparr>ascii := JBool True\<rparr>)
                      1 0 1 (Some 7))) = 5 \<and>
   snd (writeFC1 DropOrphanBrace (\<lambda>i. 0) ModbusRTU 1 0 1 (Some 7)) =
     Inr [1, 1, 0, 0, 0, 1, 0xFD] \<and>
   snd (writeFC1 OpenElseBlock (\<lambda>i. 0) ModbusRTU 1 0 1 (Some 7)) =
     Inr [1, 1, 0, 0, 0, 1, 0xFD] \<and>
   port_length (fst (port_write (\<lambda>i. 0) AsciiBufferedPort [1, 1, 0, 0, 0, 1, 0xFD])) = 13"
proof -
  have p: "parseInt ((rat_of_int 1 - 1) / 8 + 1) = 1"
    by (simp add: parseInt_def)
  have 0: "spec_binary_length 1 = 6"
    by code_simp
  have 1: "spec_ascii_length 1 = 11"
    by (simp add: spec_ascii_length_def)
  have 2: "nextLength (fst (writeFC1 rep (\<lambda>i. 0) ModbusRTU 1 0 1 (Some 7))) = 5" for rep
    using p by (simp add: writeFC1_def writeFC2_def Let_def set_nextLength_def ModbusRTU_def
        strict_eq_def split: repair.splits)
  have 3: "nextLength (fst (writeFC1 rep (\<lambda>i. 0) (ModbusRTU\<lparr>ascii := JBool True\<rparr>)
                      1 0 1 (Some 7))) = 5" for rep
    using p by (simp add: writeFC1_def writeFC2_def Let_def set_nextLength_def ModbusRTU_def
        strict_eq_def split: repair.splits)
  have 4: "snd (writeFC1 DropOrphanBrace (\<lambda>i. 0) ModbusRTU 1 0 1 (Some 7)) =
      Inr [1, 1, 0, 0, 0, 1, 0xFD]"
    by code_simp
  have 5: "snd (writeFC1 OpenElseBlock (\<lambda>i. 0) ModbusRTU 1 0 1 (Some 7)) =
      Inr [1, 1, 0, 0, 0, 1, 0xFD]"
    by code_simp
  have 6: "port_length (fst (port_write (\<lambda>i. 0) AsciiBufferedPort [1, 1, 0, 0, 0, 1, 0xFD])) = 13"
    using p by (simp add: port_write_def Let_def readUInt16BE_def AsciiBufferedPort_def)
  show ?thesis
    by (intro conjI 0 1 2 3 4 5 6)
qed

text \<open>
  Claim C4, amended.  For a coil or discrete-input read of \<open>1 \<le> n \<le> 65535\<close> bits on an
  engine whose ascii field is not \<^verbatim>\<open>false\<close> (every engine the program builds), the engine
  records the expected length \<open>3 + ceil(n/8) + 1\<close> under either repair of the write path:
  address, code, byte count, payload and one LRC byte.  On an engine whose ascii field is
  \<^verbatim>\<open>false\<close> the recorded length is the specification's binary length \<open>3 + ceil(n/8) + 2\<close>
  when the orphan brace closes an opened \<^verbatim>\<open>else\<close> block, and \<open>3 + ceil(n/8) + 1\<close> again
  when the orphan brace is dropped.  The ASCII port, for every request with function code
  1 or 2 that it transmits, records the expected wire length \<open>(3 + ceil(n/8) + 2) \<times> 2 + 1\<close>,
  where \<open>n\<close> is the 16-bit count in bytes 4 and 5 of the request; that is
  \<open>2 \<times> (3 + ceil(n/8) + 1) + 3\<close>, the hexadecimal form of the frame the engine expects plus
  three delimiters.  In particular this is what the port records for the request that an
  engine with unset ascii field writes.
\<close>

theorem expected_length_coils:
  "(1 \<le> n \<and> n \<le> 65535 \<and> \<not> strict_eq (ascii this) False \<longrightarrow>
      nextLength (fst (writeFC2 rep mem this a d n k c)) = 3 + \<lceil>rat_of_int n / 8\<rceil> + 1) \<and>
   (1 \<le> n \<and> n \<le> 65535 \<and> strict_eq (ascii this) False \<longrightarrow>
      nextLength (fst (writeFC2 OpenElseBlock mem this a d n k c)) = spec_binary_length n \<and>
      nextLength (fst (writeFC2 DropOrphanBrace mem this a d n k c)) =
        3 + \<lceil>rat_of_int n / 8\<rceil> + 1) \<and>
   (6 \<le> length data \<and> (uint (data ! 1) = 1 \<or> uint (data ! 1) = 2) \<longrightarrow>
      port_length (fst (port_write mem' p data)) =
        (3 + \<lceil>rat_of_int (uint (data ! 4) * 256 + uint (data ! 5)) / 8\<rceil> + 2) * 2 + 1) \<and>
   (1 \<le> n \<and> n \<le> 65535 \<and> 0 \<le> a \<and> a \<le> 255 \<and> 0 \<le> d \<and> d \<le> 65535 \<and>
    (c = None \<or> c = Some 1 \<or> c = Some 2) \<and> ascii this = Undefined \<longrightarrow>
      (case snd (writeFC2 rep mem this a d n k c) of
         Inl e \<Rightarrow> False
       | Inr buf \<Rightarrow>
           port_length (fst (port_write mem' p buf)) = (3 + \<lceil>rat_of_int n / 8\<rceil> + 2) * 2 + 1 \<and>
           port_length (fst (port_write mem' p buf)) = 2 * (3 + \<lceil>rat_of_int n / 8\<rceil> + 1) + 3))"
proof -
  have P1: "1 \<le> n \<and> n \<le> 65535 \<and> \<not> strict_eq (ascii this) False \<longrightarrow>
      nextLength (fst (writeFC2 rep mem this a d n k c)) = 3 + \<lceil>rat_of_int n / 8\<rceil> + 1"
  proof
    assume h: "1 \<le> n \<and> n \<le> 65535 \<and> \<not> strict_eq (ascii this) False"
    then have "0 \<le> n" "n \<le> 65535" by simp_all
    from parseInt_eighths [OF this] h
    show "nextLength (fst (writeFC2 rep mem this a d n k c)) = 3 + \<lceil>rat_of_int n / 8\<rceil> + 1"
      by (simp add: writeFC2_def Let_def set_nextLength_def split: repair.splits)
  qed
  have P1b: "1 \<le> n \<and> n \<le> 65535 \<and> strict_eq (ascii this) False \<longrightarrow>
      nextLength (fst (writeFC2 OpenElseBlock mem this a d n k c)) = spec_binary_length n \<and>
      nextLength (fst (writeFC2 DropOrphanBrace mem this a d n k c)) =
        3 + \<lceil>rat_of_int n / 8\<rceil> + 1"
  proof
    assume h: "1 \<le> n \<and> n \<le> 65535 \<and> strict_eq (ascii this) False"
    then have "0 \<le> n" "n \<le> 65535" by simp_all
    from parseInt_eighths [OF this] h
    show "nextLength (fst (writeFC2 OpenElseBlock mem this a d n k c)) = spec_binary_length n \<and>
      nextLength (fst (writeFC2 DropOrphanBrace mem this a d n k c)) =
        3 + \<lceil>rat_of_int n / 8\<rceil> + 1"
      by (simp add: writeFC2_def Let_def set_nextLength_def spec_binary_length_def)
  qed
  have port: "port_length (fst (port_write mem' p buf)) =
        (3 + \<lceil>rat_of_int (uint (buf ! 4) * 256 + uint (buf ! 5)) / 8\<rceil> + 2) * 2 + 1"
    if l: "6 \<le> length buf" and c: "uint (buf ! 1) = 1 \<or> uint (buf ! 1) = 2" for buf
  proof -
    let ?n = "uint (buf ! 4) * 256 + uint (buf ! 5)"
    have r: "readUInt16BE buf 4 = Inr ?n"
      using l by (simp add: readUInt16BE_def)
    have b4: "uint (buf ! 4) \<le> 255" and b5: "uint (buf ! 5) \<le> 255"
      using uint_bounded [of "buf ! 4"] uint_bounded [of "buf ! 5"] by simp_all
    have "0 \<le> ?n" by simp
    moreover have "?n \<le> 65535" using b4 b5 by linarith
    ultimately have "parseInt ((rat_of_int ?n - 1) / 8 + 1) = \<lceil>rat_of_int ?n / 8\<rceil>"
      by (rule parseInt_eighths)
    then show ?thesis
      using l c by (auto simp add: port_write_def Let_def r)
  qed
  have P2: "6 \<le> length data \<and> (uint (data ! 1) = 1 \<or> uint (data ! 1) = 2) \<longrightarrow>
      port_length (fst (port_write mem' p data)) =
        (3 + \<lceil>rat_of_int (uint (data ! 4) * 256 + uint (data ! 5)) / 8\<rceil> + 2) * 2 + 1"
    using port [of data] by blast
  have P3: "1 \<le> n \<and> n \<le> 65535 \<and> 0 \<le> a \<and> a \<le> 255 \<and> 0 \<le> d \<and> d \<le> 65535 \<and>
    (c = None \<or> c = Some 1 \<or> c = Some 2) \<and> ascii this = Undefined \<longrightarrow>
      (case snd (writeFC2 rep mem this a d n k c) of
         Inl e \<Rightarrow> False
       | Inr buf \<Rightarrow>
           port_length (fst (port_write mem' p buf)) = (3 + \<lceil>rat_of_int n / 8\<rceil> + 2) * 2 + 1 \<and>
           port_length (fst (port_write mem' p buf)) = 2 * (3 + \<lceil>rat_of_int n / 8\<rceil> + 1) + 3)"
  proof
    assume h: "1 \<le> n \<and> n \<le> 65535 \<and> 0 \<le> a \<and> a \<le> 255 \<and> 0 \<le> d \<and> d \<le> 65535 \<and>
      (c = None \<or> c = Some 1 \<or> c = Some 2) \<and> ascii this = Undefined"
    define code where "code = default_code c 2"
    have code: "code = 1 \<or> code = 2"
      using h by (auto simp: code_def default_code_def)
    then have cr: "0 \<le> code" "code \<le> 255" by auto
    have nt: "\<not> strict_eq (ascii this) True" and nf: "\<not> strict_eq (ascii this) False"
      using h by (simp_all add: strict_eq_def)
    have n0: "0 \<le> n" using h by simp
    define buf where "buf = with_lrc (core6 a code d n)"
    have s: "snd (writeFC2 rep mem this a d n k c) = Inr buf"
      unfolding buf_def code_def
      using h cr n0 by (intro frame2 nt nf) (simp_all add: code_def)
    have l: "6 \<le> length buf"
      by (simp add: buf_def with_lrc_def)
    have b1: "uint (buf ! 1) = code"
      using cr by (simp add: buf_def with_lrc_def core6_def uint_byte_of_int)
    have dr: "0 \<le> n div 256" "n div 256 \<le> 255"
      using div256_range [of n] h by simp_all
    have b45: "uint (buf ! 4) * 256 + uint (buf ! 5) = n"
      using dr by (simp add: buf_def with_lrc_def core6_def be16_def uint_byte_of_int)
    have "port_length (fst (port_write mem' p buf)) = (3 + \<lceil>rat_of_int n / 8\<rceil> + 2) * 2 + 1"
      using port [OF l] b1 code unfolding b45 by simp
    then show "case snd (writeFC2 rep mem this a d n k c) of
         Inl e \<Rightarrow> False
       | Inr buf \<Rightarrow>
           port_length (fst (port_write mem' p buf)) = (3 + \<lceil>rat_of_int n / 8\<rceil> + 2) * 2 + 1 \<and>
           port_length (fst (port_write mem' p buf)) = 2 * (3 + \<lceil>rat_of_int n / 8\<rceil> + 1) + 3"
      unfolding s by simp
  qed
  show ?thesis
    by (intro conjI P1 P1b P2 P3)
qed

theorem expected_length_coils_witness:
  "nextLength (fst (writeFC2 DropOrphanBrace (\<lambda>i. 0) ModbusRTU 1 0 9 (Some 7) (Some 1))) =
     3 + \<lceil>rat_of_int 9 / 8\<rceil> + 1 \<and>
   nextLength (fst (writeFC2 OpenElseBlock (\<lambda>i. 0) ModbusRTU 1 0 9 (Some 7) (Some 1))) =
     3 + \<lceil>rat_of_int 9 / 8\<rceil> + 1 \<and>
   nextLength (fst (writeFC2 OpenElseBlock (\<lambda>i. 0) (ModbusRTU\<lparr>ascii := JBool False\<rparr>)
                      1 0 9 (Some 7) (Some 1))) = spec_binary_length 9 \<and>
   nextLength (fst (writeFC2 DropOrphanBrace (\<lambda>i. 0) (ModbusRTU\<lparr>ascii := JBool False\<rparr>)
                      1 0 9 (Some 7) (Some 1))) = 3 + \<lceil>rat_of_int 9 / 8\<rceil> + 1 \<and>
   \<lceil>rat_of_int 9 / 8\<rceil> = 2 \<and>
   spec_binary_length 9 = 7 \<and>
   snd (writeFC2 DropOrphanBrace (\<lambda>i. 0) ModbusRTU 1 0 9 (Some 7) (Some 1)) =
     Inr [1, 1, 0, 0, 0, 9, 0xF5] \<and>
   port_length (fst (port_write (\<lambda>i. 0) AsciiBufferedPort [1, 1, 0, 0, 0, 9, 0xF5])) =
     (3 + \<lceil>rat_of_int 9 / 8\<rceil> + 2) * 2 + 1 \<and>
   port_length (fst (port_write (\<lambda>i. 0) AsciiBufferedPort [1, 2, 0, 0, 1, 4, 0xF8])) =
     (3 + \<lceil>rat_of_int (uint (1 :: byte) * 256 + uint (4 :: byte)) / 8\<rceil> + 2) * 2 + 1"
proof -
  note t = expected_length_coils [where n = 9 and this = ModbusRTU and mem = "\<lambda>i. 0"
      and a = 1 and d = 0 and k = "Some 7" and c = "Some 1" and mem' = "\<lambda>i. 0"
      and p = AsciiBufferedPort]
  note t' = expected_length_coils [where n = 9 and this = "ModbusRTU\<lparr>ascii := JBool False\<rparr>"
      and mem = "\<lambda>i. 0" and a = 1 and d = 0 and k = "Some 7" and c = "Some 1"]
  have h1: "(1::int) \<le> 9 \<and> (9::int) \<le> 65535 \<and> \<not> strict_eq (ascii ModbusRTU) False"
    by (simp add: ModbusRTU_def strict_eq_def)
  have h1b: "(1::int) \<le> 9 \<and> (9::int) \<le> 65535 \<and>
      strict_eq (ascii (ModbusRTU\<lparr>ascii := JBool False\<rparr>)) False"
    by (simp add: strict_eq_def)
  have h2: "6 \<le> length [1, 2, 0, 0, 1, 4, 0xF8 :: byte] \<and>
      (uint ([1, 2, 0, 0, 1, 4, 0xF8 :: byte] ! 1) = 1 \<or>
       uint ([1, 2, 0, 0, 1, 4, 0xF8 :: byte] ! 1) = 2)"
    by simp
  have h3: "(1::int) \<le> 9 \<and> (9::int) \<le> 65535 \<and> (0::int) \<le> 1 \<and> (1::int) \<le> 255 \<and>
      (0::int) \<le> 0 \<and> (0::int) \<le> 65535 \<and>
      (Some (1::int) = None \<or> Some (1::int) = Some 1 \<or> Some (1::int) = Some 2) \<and>
      ascii ModbusRTU = Undefined"
    by (simp add: ModbusRTU_def)
  have s: "snd (writeFC2 DropOrphanBrace (\<lambda>i. 0) ModbusRTU 1 0 9 (Some 7) (Some 1)) =
      Inr [1, 1, 0, 0, 0, 9, 0xF5]"
    by code_simp
  have c: "\<lceil>rat_of_int 9 / 8\<rceil> = (2::int)"
    by code_simp
  have b: "spec_binary_length 9 = 7"
    unfolding spec_binary_length_def c by simp
  have 1: "nextLength (fst (writeFC2 rep (\<lambda>i. 0) ModbusRTU 1 0 9 (Some 7) (Some 1))) =
      3 + \<lceil>rat_of_int 9 / 8\<rceil> + 1" for rep
    using t [of rep, THEN conjunct1] h1 by (rule mp)
  have 2: "nextLength (fst (writeFC2 OpenElseBlock (\<lambda>i. 0) (ModbusRTU\<lparr>ascii := JBool False\<rparr>)
                      1 0 9 (Some 7) (Some 1))) = spec_binary_length 9"
    using t' [THEN conjunct2, THEN conjunct1, rule_format, OF h1b] by (rule conjunct1)
  have 3: "nextLength (fst (writeFC2 DropOrphanBrace (\<lambda>i. 0) (ModbusRTU\<lparr>ascii := JBool False\<rparr>)
                      1 0 9 (Some 7) (Some 1))) = 3 + \<lceil>rat_of_int 9 / 8\<rceil> + 1"
    using t' [THEN conjunct2, THEN conjunct1, rule_format, OF h1b] by (rule conjunct2)
  have "case snd (writeFC2 DropOrphanBrace (\<lambda>i. 0) ModbusRTU 1 0 9 (Some 7) (Some 1)) of
         Inl e \<Rightarrow> False
       | Inr buf \<Rightarrow>
           port_length (fst (port_write (\<lambda>i. 0) AsciiBufferedPort buf)) =
             (3 + \<lceil>rat_of_int 9 / 8\<rceil> + 2) * 2 + 1 \<and>
           port_length (fst (port_write (\<lambda>i. 0) AsciiBufferedPort buf)) =
             2 * (3 + \<lceil>rat_of_int 9 / 8\<rceil> + 1) + 3"
    using t [of DropOrphanBrace, THEN conjunct2, THEN conjunct2, THEN conjunct2] h3 by (rule mp)
  then have 4: "port_length (fst (port_write (\<lambda>i. 0) AsciiBufferedPort [1, 1, 0, 0, 0, 9, 0xF5])) =
     (3 + \<lceil>rat_of_int 9 / 8\<rceil> + 2) * 2 + 1"
    unfolding s by simp
  have 5: "port_length (fst (port_write (\<lambda>i. 0) AsciiBufferedPort [1, 2, 0, 0, 1, 4, 0xF8])) =
     (3 + \<lceil>rat_of_int (uint (1 :: byte) * 256 + uint (4 :: byte)) / 8\<rceil> + 2) * 2 + 1"
    using t [of _ "[1, 2, 0, 0, 1, 4, 0xF8]", THEN conjunct2, THEN conjunct2, THEN conjunct1,
        rule_format, OF h2] by simp
  show ?thesis
    by (intro conjI 1 2 3 c b s 4 5)
qed

section \<open>No engine ever has a boolean in its ascii field\<close>

text \<open>
  Claim C10.  The constructor sets no \<^verbatim>\<open>_ascii\<close> and no method of the engine assigns
  it, so on every engine that the constructor, the write methods and the data handler
  can produce the field is \<^verbatim>\<open>undefined\<close> and both \<^verbatim>\<open>this._ascii === false\<close> and
  \<^verbatim>\<open>this._ascii === true\<close> are false.  The text of the write methods needs a repair
  before it is a program (see the section on the write paths); everything here holds
  under either repair.  On such an engine, for arguments that fit their fields, each
  write method hands the port the core followed by the LRC of the core, one byte, and
  never the two bytes of a CRC16; and whatever a write method hands over, for any
  arguments, is one byte longer than its core and ends in the LRC of what precedes.  The
  handler never reports a CRC error: a candidate that passes the length and identity
  tests is compared with the LRC of all its bytes but the last.
\<close>

theorem ascii_never_set:
  "reachable modbus \<Longrightarrow>
     ascii ModbusRTU = Undefined \<and>
     ascii modbus = Undefined \<and>
     \<not> strict_eq (ascii modbus) False \<and>
     \<not> strict_eq (ascii modbus) True \<and>
     (0 \<le> a \<and> a \<le> 255 \<and> 0 \<le> d \<and> d \<le> 65535 \<and> 0 \<le> n \<and> n \<le> 65535 \<longrightarrow>
        snd (writeFC1 rep mem modbus a d n k) = Inr (with_lrc (core6 a 1 d n)) \<and>
        (0 \<le> default_code c 2 \<and> default_code c 2 \<le> 255 \<longrightarrow>
           snd (writeFC2 rep mem modbus a d n k c) =
             Inr (with_lrc (core6 a (default_code c 2) d n))) \<and>
        snd (writeFC3 rep mem modbus a d n k) = Inr (with_lrc (core6 a 3 d n)) \<and>
        (0 \<le> default_code c 4 \<and> default_code c 4 \<le> 255 \<longrightarrow>
           snd (writeFC4 rep mem modbus a d n k c) =
             Inr (with_lrc (core6 a (default_code c 4) d n))) \<and>
        snd (writeFC5 rep mem modbus a d s k) =
          Inr (with_lrc (core6 a 5 d (if s then 0xff00 else 0x0000))) \<and>
        snd (writeFC6 rep mem modbus a d n k) = Inr (with_lrc (core6 a 6 d n))) \<and>
     (0 \<le> a \<and> a \<le> 255 \<and> 0 \<le> d \<and> d \<le> 65535 \<and> length vs \<le> 127 \<and>
      (\<forall>v \<in> set vs. 0 \<le> v \<and> v \<le> 65535) \<longrightarrow>
        snd (writeFC16 rep mem modbus a d vs k) = Inr (with_lrc (core16 a d vs))) \<and>
     length (with_lrc core) = length core + 1 \<and>
     with_lrc core ! length core = word_of_int (lrc_spec core (length core)) \<and>
     with_lrc core \<noteq> with_crc16 core \<and>
     (snd (writeFC1 rep mem modbus a d n k) = Inr out1 \<longrightarrow>
        length out1 = 7 \<and> out1 ! 6 = word_of_int (lrc_spec out1 6)) \<and>
     (snd (writeFC2 rep mem modbus a d n k c) = Inr out2 \<longrightarrow>
        length out2 = 7 \<and> out2 ! 6 = word_of_int (lrc_spec out2 6)) \<and>
     (snd (writeFC3 rep mem modbus a d n k) = Inr out3 \<longrightarrow>
        length out3 = 7 \<and> out3 ! 6 = word_of_int (lrc_spec out3 6)) \<and>
     (snd (writeFC4 rep mem modbus a d n k c) = Inr out4 \<longrightarrow>
        length out4 = 7 \<and> out4 ! 6 = word_of_int (lrc_spec out4 6)) \<and>
     (snd (writeFC5 rep mem modbus a d s k) = Inr out5 \<longrightarrow>
        length out5 = 7 \<and> out5 ! 6 = word_of_int (lrc_spec out5 6)) \<and>
     (snd (writeFC6 rep mem modbus a d n k) = Inr out6 \<longrightarrow>
        length out6 = 7 \<and> out6 ! 6 = word_of_int (lrc_spec out6 6)) \<and>
     (snd (writeFC16 rep mem modbus a d vs k) = Inr out16 \<longrightarrow>
        length out16 = 7 + 2 * length vs + 1 \<and>
        out16 ! (7 + 2 * length vs) = word_of_int (lrc_spec out16 (7 + 2 * length vs))) \<and>
     (k', Failure CRCError) \<notin> set (calls (on_data modbus data)) \<and>
     (passes_checks modbus data \<longrightarrow>
        on_data modbus data =
          finish (cleared modbus)
            (data[length data - 1 := word_of_int (lrc_spec data (length data - 1))])
            (if uint (data ! (length data - 1)) \<noteq> lrc_spec data (length data - 1)
             then Inr (call_next (next_fn modbus) (Failure LRCError))
             else parse (data[length data - 1 := word_of_int (lrc_spec data (length data - 1))])
                    (uint (data ! 1)) (next_fn modbus)))"
proof -
  assume r: "reachable modbus"
  have u: "ascii modbus = Undefined" by (rule reachable_ascii [OF r])
  have nf: "\<not> strict_eq (ascii modbus) False" and nt: "\<not> strict_eq (ascii modbus) True"
    by (simp_all add: u strict_eq_def)
  have nf': "ascii modbus \<noteq> JBool False" by (simp add: u)
  have c0: "ascii ModbusRTU = Undefined" by (simp add: ModbusRTU_def)
  have f6: "0 \<le> a \<and> a \<le> 255 \<and> 0 \<le> d \<and> d \<le> 65535 \<and> 0 \<le> n \<and> n \<le> 65535 \<longrightarrow>
        snd (writeFC1 rep mem modbus a d n k) = Inr (with_lrc (core6 a 1 d n)) \<and>
        (0 \<le> default_code c 2 \<and> default_code c 2 \<le> 255 \<longrightarrow>
           snd (writeFC2 rep mem modbus a d n k c) =
             Inr (with_lrc (core6 a (default_code c 2) d n))) \<and>
        snd (writeFC3 rep mem modbus a d n k) = Inr (with_lrc (core6 a 3 d n)) \<and>
        (0 \<le> default_code c 4 \<and> default_code c 4 \<le> 255 \<longrightarrow>
           snd (writeFC4 rep mem modbus a d n k c) =
             Inr (with_lrc (core6 a (default_code c 4) d n))) \<and>
        snd (writeFC5 rep mem modbus a d s k) =
          Inr (with_lrc (core6 a 5 d (if s then 0xff00 else 0x0000))) \<and>
        snd (writeFC6 rep mem modbus a d n k) = Inr (with_lrc (core6 a 6 d n))"
  proof (intro impI, elim conjE)
    assume h: "0 \<le> a" "a \<le> 255" "0 \<le> d" "d \<le> 65535" "0 \<le> n" "n \<le> 65535"
    have d1: "default_code (Some 1) 2 = 1" and d3: "default_code (Some 3) 4 = 3"
      by (simp_all add: default_code_def)
    have 1: "snd (writeFC1 rep mem modbus a d n k) = Inr (with_lrc (core6 a 1 d n))"
      unfolding writeFC1_def
      using frame2 [OF h(1,2) _ _ h(3-6) nt nf, of "Some 1" rep mem k] by (simp add: d1)
    have 2: "0 \<le> default_code c 2 \<and> default_code c 2 \<le> 255 \<longrightarrow>
           snd (writeFC2 rep mem modbus a d n k c) =
             Inr (with_lrc (core6 a (default_code c 2) d n))"
      using frame2 [OF h(1,2) _ _ h(3-6) nt nf, of c rep mem k] by blast
    have 3: "snd (writeFC3 rep mem modbus a d n k) = Inr (with_lrc (core6 a 3 d n))"
      unfolding writeFC3_def
      using frame4 [OF h(1,2) _ _ h(3-6) nt nf, of "Some 3" rep mem k] by (simp add: d3)
    have 4: "0 \<le> default_code c 4 \<and> default_code c 4 \<le> 255 \<longrightarrow>
           snd (writeFC4 rep mem modbus a d n k c) =
             Inr (with_lrc (core6 a (default_code c 4) d n))"
      using frame4 [OF h(1,2) _ _ h(3-6) nt nf, of c rep mem k] by blast
    have 5: "snd (writeFC5 rep mem modbus a d s k) =
          Inr (with_lrc (core6 a 5 d (if s then 0xff00 else 0x0000)))"
      by (rule frame5 [OF h(1-4) nt nf])
    have 6: "snd (writeFC6 rep mem modbus a d n k) = Inr (with_lrc (core6 a 6 d n))"
      by (rule frame6w [OF h nt nf])
    show "snd (writeFC1 rep mem modbus a d n k) = Inr (with_lrc (core6 a 1 d n)) \<and>
        (0 \<le> default_code c 2 \<and> default_code c 2 \<le> 255 \<longrightarrow>
           snd (writeFC2 rep mem modbus a d n k c) =
             Inr (with_lrc (core6 a (default_code c 2) d n))) \<and>
        snd (writeFC3 rep mem modbus a d n k) = Inr (with_lrc (core6 a 3 d n)) \<and>
        (0 \<le> default_code c 4 \<and> default_code c 4 \<le> 255 \<longrightarrow>
           snd (writeFC4 rep mem modbus a d n k c) =
             Inr (with_lrc (core6 a (default_code c 4) d n))) \<and>
        snd (writeFC5 rep mem modbus a d s k) =
          Inr (with_lrc (core6 a 5 d (if s then 0xff00 else 0x0000))) \<and>
        snd (writeFC6 rep mem modbus a d n k) = Inr (with_lrc (core6 a 6 d n))"
      by (intro conjI 1 2 3 4 5 6)
  qed
  have f16: "0 \<le> a \<and> a \<le> 255 \<and> 0 \<le> d \<and> d \<le> 65535 \<and> length vs \<le> 127 \<and>
      (\<forall>v \<in> set vs. 0 \<le> v \<and> v \<le> 65535) \<longrightarrow>
        snd (writeFC16 rep mem modbus a d vs k) = Inr (with_lrc (core16 a d vs))"
    using frame16 [of a d vs modbus rep mem k] nt nf by blast
  have l1: "length (with_lrc core) = length core + 1"
    by (simp add: with_lrc_def)
  have l2: "with_lrc core ! length core = word_of_int (lrc_spec core (length core))"
    by (simp add: with_lrc_def)
  have l3: "with_lrc core \<noteq> with_crc16 core"
  proof
    assume "with_lrc core = with_crc16 core"
    then have "length (with_lrc core) = length (with_crc16 core)" by simp
    then show False by (simp add: with_lrc_def with_crc16_def)
  qed
  have w1: "snd (writeFC1 rep mem modbus a d n k) = Inr out1 \<longrightarrow>
        length out1 = 7 \<and> out1 ! 6 = word_of_int (lrc_spec out1 6)"
    unfolding writeFC1_def using writeFC2_lrc [OF nt nf] by blast
  have w2: "snd (writeFC2 rep mem modbus a d n k c) = Inr out2 \<longrightarrow>
        length out2 = 7 \<and> out2 ! 6 = word_of_int (lrc_spec out2 6)"
    using writeFC2_lrc [OF nt nf] by blast
  have w3: "snd (writeFC3 rep mem modbus a d n k) = Inr out3 \<longrightarrow>
        length out3 = 7 \<and> out3 ! 6 = word_of_int (lrc_spec out3 6)"
    unfolding writeFC3_def using writeFC4_lrc [OF nt nf] by blast
  have w4: "snd (writeFC4 rep mem modbus a d n k c) = Inr out4 \<longrightarrow>
        length out4 = 7 \<and> out4 ! 6 = word_of_int (lrc_spec out4 6)"
    using writeFC4_lrc [OF nt nf] by blast
  have w5: "snd (writeFC5 rep mem modbus a d s k) = Inr out5 \<longrightarrow>
        length out5 = 7 \<and> out5 ! 6 = word_of_int (lrc_spec out5 6)"
    using writeFC5_lrc [OF nt nf] by blast
  have w6: "snd (writeFC6 rep mem modbus a d n k) = Inr out6 \<longrightarrow>
        length out6 = 7 \<and> out6 ! 6 = word_of_int (lrc_spec out6 6)"
    using writeFC6_lrc [OF nt nf] by blast
  have w16: "snd (writeFC16 rep mem modbus a d vs k) = Inr out16 \<longrightarrow>
        length out16 = 7 + 2 * length vs + 1 \<and>
        out16 ! (7 + 2 * length vs) = word_of_int (lrc_spec out16 (7 + 2 * length vs))"
    using writeFC16_lrc [OF nt nf] by blast
  have h: "passes_checks modbus data \<longrightarrow>
        on_data modbus data =
          finish (cleared modbus)
            (data[length data - 1 := word_of_int (lrc_spec data (length data - 1))])
            (if uint (data ! (length data - 1)) \<noteq> lrc_spec data (length data - 1)
             then Inr (call_next (next_fn modbus) (Failure LRCError))
             else parse (data[length data - 1 := word_of_int (lrc_spec data (length data - 1))])
                    (uint (data ! 1)) (next_fn modbus))"
    using on_data_lrc [of data modbus] nf' by (simp add: passes_checks_def)
  have nocrc: "(k', Failure CRCError) \<notin> set (calls (on_data modbus data))"
  proof (cases "passes_checks modbus data")
    case False
    with on_data_cases [of modbus data] show ?thesis by fastforce
  next
    case True
    show ?thesis
    proof (cases "stored_checksum_matches modbus data")
      case False
      from on_data_invalid [OF True this] nf' show ?thesis
        by (auto dest: call_next_set)
    next
      case m: True
      show ?thesis
      proof
        assume i: "(k', Failure CRCError) \<in> set (calls (on_data modbus data))"
        note v = on_data_valid [OF True m]
        show False
        proof (cases "parse data (uint (data ! 1)) (next_fn modbus)")
          case (Inl e)
          with v i show False by simp
        next
          case (Inr cs)
          with v i have "(k', Failure CRCError) \<in> set cs" by simp
          from parse_calls_success [OF Inr this] show False by simp
        qed
      qed
    qed
  qed
  show ?thesis
    by (intro conjI c0 u nf nt f6 f16 l1 l2 l3 w1 w2 w3 w4 w5 w6 w16 nocrc h)
qed

theorem ascii_never_set_witness:
  "reachable (fst (writeFC3 OpenElseBlock (\<lambda>i. 0) ModbusRTU 1 0 2 (Some 7))) \<and>
   ascii (fst (writeFC3 OpenElseBlock (\<lambda>i. 0) ModbusRTU 1 0 2 (Some 7))) = Undefined \<and>
   snd (writeFC1 DropOrphanBrace (\<lambda>i. 0) ModbusRTU 1 0 3 (Some 7)) = Inr [1, 1, 0, 0, 0, 3, 0xFB] \<and>
   snd (writeFC1 OpenElseBlock (\<lambda>i. 0) ModbusRTU 1 0 3 (Some 7)) = Inr [1, 1, 0, 0, 0, 3, 0xFB] \<and>
   snd (writeFC2 DropOrphanBrace (\<lambda>i. 0) ModbusRTU 1 0 3 (Some 7) None) =
     Inr [1, 2, 0, 0, 0, 3, 0xFA] \<and>
   snd (writeFC2 OpenElseBlock (\<lambda>i. 0) ModbusRTU 1 0 3 (Some 7) None) =
     Inr [1, 2, 0, 0, 0, 3, 0xFA] \<and>
   snd (writeFC3 DropOrphanBrace (\<lambda>i. 0) ModbusRTU 1 0 2 (Some 7)) = Inr [1, 3, 0, 0, 0, 2, 0xFA] \<and>
   snd (writeFC3 OpenElseBlock (\<lambda>i. 0) ModbusRTU 1 0 2 (Some 7)) = Inr [1, 3, 0, 0, 0, 2, 0xFA] \<and>
   snd (writeFC4 DropOrphanBrace (\<lambda>i. 0) ModbusRTU 1 0 2 (Some 7) None) =
     Inr [1, 4, 0, 0, 0, 2, 0xF9] \<and>
   snd (writeFC4 OpenElseBlock (\<lambda>i. 0) ModbusRTU 1 0 2 (Some 7) None) =
     Inr [1, 4, 0, 0, 0, 2, 0xF9] \<and>
   snd (writeFC5 DropOrphanBrace (\<lambda>i. 0) ModbusRTU 0x11 1 True (Some 7)) =
     Inr [0x11, 5, 0, 1, 0xFF, 0, 0xEA] \<and>
   snd (writeFC5 OpenElseBlock (\<lambda>i. 0) ModbusRTU 0x11 1 True (Some 7)) =
     Inr [0x11, 5, 0, 1, 0xFF, 0, 0xEA] \<and>
   snd (writeFC6 DropOrphanBrace (\<lambda>i. 0) ModbusRTU 1 1 3 (Some 7)) = Inr [1, 6, 0, 1, 0, 3, 0xF5] \<and>
   snd (writeFC6 OpenElseBlock (\<lambda>i. 0) ModbusRTU 1 1 3 (Some 7)) = Inr [1, 6, 0, 1, 0, 3, 0xF5] \<and>
   snd (writeFC16 DropOrphanBrace (\<lambda>i. 0) ModbusRTU 1 0 [1, 2, 3] (Some 7)) =
     Inr [1, 16, 0, 0, 0, 3, 6, 0, 1, 0, 2, 0, 3, 0xE0] \<and>
   snd (writeFC16 OpenElseBlock (\<lambda>i. 0) ModbusRTU 1 0 [1, 2, 3] (Some 7)) =
     Inr [1, 16, 0, 0, 0, 3, 6, 0, 1, 0, 2, 0, 3, 0xE0] \<and>
   passes_checks (fst (writeFC3 OpenElseBlock (\<lambda>i. 0) ModbusRTU 1 0 2 (Some 7)))
     [1, 3, 4, 0, 10, 0, 11, 0xE4] \<and>
   calls (on_data (fst (writeFC3 OpenElseBlock (\<lambda>i. 0) ModbusRTU 1 0 2 (Some 7)))
            [1, 3, 4, 0, 10, 0, 11, 0xE4]) = [(7, Failure LRCError)]"
proof -
  let ?e = "fst (writeFC3 OpenElseBlock (\<lambda>i. 0) ModbusRTU 1 0 2 (Some 7))"
  let ?d = "[1, 3, 4, 0, 10, 0, 11, 0xE4 :: byte]"
  have r0: "reachable ModbusRTU"
    by (rule reachable.constructed)
  have r: "reachable ?e"
    by (rule reachable.after_writeFC3) (rule reachable.constructed)
  have v1: "with_lrc (core6 1 1 0 3) = [1, 1, 0, 0, 0, 3, 0xFB]" by code_simp
  have v2: "with_lrc (core6 1 (default_code None 2) 0 3) = [1, 2, 0, 0, 0, 3, 0xFA]" by code_simp
  have v3: "with_lrc (core6 1 3 0 2) = [1, 3, 0, 0, 0, 2, 0xFA]" by code_simp
  have v4: "with_lrc (core6 1 (default_code None 4) 0 2) = [1, 4, 0, 0, 0, 2, 0xF9]" by code_simp
  have v5: "with_lrc (core6 0x11 5 1 (if True then 0xff00 else 0x0000)) =
      [0x11, 5, 0, 1, 0xFF, 0, 0xEA]" by code_simp
  have v6: "with_lrc (core6 1 6 1 3) = [1, 6, 0, 1, 0, 3, 0xF5]" by code_simp
  have v16: "with_lrc (core16 1 0 [1, 2, 3]) = [1, 16, 0, 0, 0, 3, 6, 0, 1, 0, 2, 0, 3, 0xE0]"
    by code_simp
  have dc: "0 \<le> default_code None 2 \<and> default_code None 2 \<le> 255"
    "0 \<le> default_code None 4 \<and> default_code None 4 \<le> 255"
    by (simp_all add: default_code_def)
  have ha: "(0::int) \<le> 1 \<and> (1::int) \<le> 255 \<and> (0::int) \<le> 0 \<and> (0::int) \<le> 65535 \<and>
      (0::int) \<le> 3 \<and> (3::int) \<le> 65535" by simp
  have hb: "(0::int) \<le> 1 \<and> (1::int) \<le> 255 \<and> (0::int) \<le> 0 \<and> (0::int) \<le> 65535 \<and>
      (0::int) \<le> 2 \<and> (2::int) \<le> 65535" by simp
  have hc: "(0::int) \<le> 0x11 \<and> (0x11::int) \<le> 255 \<and> (0::int) \<le> 1 \<and> (1::int) \<le> 65535 \<and>
      (0::int) \<le> 3 \<and> (3::int) \<le> 65535" by simp
  have hd: "(0::int) \<le> 1 \<and> (1::int) \<le> 255 \<and> (0::int) \<le> 1 \<and> (1::int) \<le> 65535 \<and>
      (0::int) \<le> 3 \<and> (3::int) \<le> 65535" by simp
  have he: "(0::int) \<le> 1 \<and> (1::int) \<le> 255 \<and> (0::int) \<le> 0 \<and> (0::int) \<le> 65535 \<and>
      length [1, 2, 3 :: int] \<le> 127 \<and> (\<forall>v \<in> set [1, 2, 3 :: int]. 0 \<le> v \<and> v \<le> 65535)"
    by simp
  note ta = ascii_never_set [OF r0, where a = 1 and d = 0 and n = 3 and k = "Some 7"
      and mem = "\<lambda>i. 0" and c = None, THEN conjunct2, THEN conjunct2, THEN conjunct2,
      THEN conjunct2, THEN conjunct1, rule_format, OF ha]
  note tb = ascii_never_set [OF r0, where a = 1 and d = 0 and n = 2 and k = "Some 7"
      and mem = "\<lambda>i. 0" and c = None, THEN conjunct2, THEN conjunct2, THEN conjunct2,
      THEN conjunct2, THEN conjunct1, rule_format, OF hb]
  note tc = ascii_never_set [OF r0, where a = "0x11" and d = 1 and n = 3 and k = "Some 7"
      and mem = "\<lambda>i. 0" and s = True, THEN conjunct2, THEN conjunct2, THEN conjunct2,
      THEN conjunct2, THEN conjunct1, rule_format, OF hc]
  note td = ascii_never_set [OF r0, where a = 1 and d = 1 and n = 3 and k = "Some 7"
      and mem = "\<lambda>i. 0", THEN conjunct2, THEN conjunct2, THEN conjunct2,
      THEN conjunct2, THEN conjunct1, rule_format, OF hd]
  note te = ascii_never_set [OF r0, where a = 1 and d = 0 and vs = "[1, 2, 3]" and k = "Some 7"
      and mem = "\<lambda>i. 0", THEN conjunct2, THEN conjunct2, THEN conjunct2,
      THEN conjunct2, THEN conjunct2, THEN conjunct1, rule_format, OF he]
  have 1: "snd (writeFC1 rep (\<lambda>i. 0) ModbusRTU 1 0 3 (Some 7)) = Inr [1, 1, 0, 0, 0, 3, 0xFB]"
    for rep using ta [of rep, THEN conjunct1] unfolding v1 .
  have 2: "snd (writeFC2 rep (\<lambda>i. 0) ModbusRTU 1 0 3 (Some 7) None) = Inr [1, 2, 0, 0, 0, 3, 0xFA]"
    for rep using ta [of rep, THEN conjunct2, THEN conjunct1, rule_format, OF dc(1)]
    unfolding v2 .
  have 3: "snd (writeFC3 rep (\<lambda>i. 0) ModbusRTU 1 0 2 (Some 7)) = Inr [1, 3, 0, 0, 0, 2, 0xFA]"
    for rep using tb [of rep, THEN conjunct2, THEN conjunct2, THEN conjunct1] unfolding v3 .
  have 4: "snd (writeFC4 rep (\<lambda>i. 0) ModbusRTU 1 0 2 (Some 7) None) = Inr [1, 4, 0, 0, 0, 2, 0xF9]"
    for rep using tb [of rep, THEN conjunct2, THEN conjunct2, THEN conjunct2, THEN conjunct1,
        rule_format, OF dc(2)]
    unfolding v4 .
  have 5: "snd (writeFC5 rep (\<lambda>i. 0) ModbusRTU 0x11 1 True (Some 7)) =
      Inr [0x11, 5, 0, 1, 0xFF, 0, 0xEA]"
    for rep using tc [of rep, THEN conjunct2, THEN conjunct2, THEN conjunct2, THEN conjunct2,
        THEN conjunct1]
    unfolding v5 .
  have 6: "snd (writeFC6 rep (\<lambda>i. 0) ModbusRTU 1 1 3 (Some 7)) = Inr [1, 6, 0, 1, 0, 3, 0xF5]"
    for rep using td [of rep, THEN conjunct2, THEN conjunct2, THEN conjunct2, THEN conjunct2,
        THEN conjunct2]
    unfolding v6 .
  have 16: "snd (writeFC16 rep (\<lambda>i. 0) ModbusRTU 1 0 [1, 2, 3] (Some 7)) =
      Inr [1, 16, 0, 0, 0, 3, 6, 0, 1, 0, 2, 0, 3, 0xE0]"
    for rep using te [of rep] unfolding v16 .
  have u: "ascii ?e = Undefined"
    by (rule ascii_never_set [OF r, THEN conjunct2, THEN conjunct1])
  have p: "passes_checks ?e ?d"
    by code_simp
  have cl: "calls (on_data ?e ?d) = [(7, Failure LRCError)]"
    by code_simp
  show ?thesis
    by (intro conjI r u 1 2 3 4 5 6 16 p cl)
qed

section \<open>The checksum a write path appends\<close>

text \<open>
  Claim C1 does not hold of the code.  The request is read-holding-registers for unit 1,
  start 0, count 2; its core is \<^verbatim>\<open>01 03 00 00 00 02\<close>, whose CRC16 is \<^verbatim>\<open>0x0BC4\<close>
  (little-endian \<^verbatim>\<open>C4 0B\<close>) and whose LRC is \<^verbatim>\<open>FA\<close>.  The test that selects the
  checksum is \<^verbatim>\<open>this._ascii === true\<close> for the CRC16, the opposite of the test that
  sizes the buffer.  With the ascii field \<^verbatim>\<open>false\<close> (binary mode) the write path
  appends the LRC: 7 bytes when the orphan brace is dropped, and 8 bytes, the last one
  never written, when it closes an opened \<^verbatim>\<open>else\<close> block.  With the field \<^verbatim>\<open>true\<close>
  (ASCII mode) it calls \<^verbatim>\<open>_CRC16\<close> on the 7-byte buffer, whose two-byte store at
  offset 6 throws, and nothing is written.  With the field unset, as the constructor
  leaves it, it appends the LRC.
\<close>

theorem write_path_checksum_evaluated:
  "CRC16 [1, 3, 0, 0, 0, 2, 0, 0] 6 = Inr ([1, 3, 0, 0, 0, 2, 0xC4, 0x0B], 0x0BC4) \<and>
   LRC [1, 3, 0, 0, 0, 2, 0] 6 = Inr ([1, 3, 0, 0, 0, 2, 0xFA], 0xFA) \<and>
   snd (writeFC3 DropOrphanBrace (\<lambda>i. 0) (ModbusRTU\<lparr>ascii := JBool False\<rparr>) 1 0 2 (Some 7)) =
     Inr [1, 3, 0, 0, 0, 2, 0xFA] \<and>
   snd (writeFC3 OpenElseBlock (\<lambda>i. 0) (ModbusRTU\<lparr>ascii := JBool False\<rparr>) 1 0 2 (Some 7)) =
     Inr [1, 3, 0, 0, 0, 2, 0xFA, 0] \<and>
   snd (writeFC3 DropOrphanBrace (\<lambda>i. 0) (ModbusRTU\<lparr>ascii := JBool True\<rparr>) 1 0 2 (Some 7)) =
     Inl RangeError \<and>
   snd (writeFC3 OpenElseBlock (\<lambda>i. 0) (ModbusRTU\<lparr>ascii := JBool True\<rparr>) 1 0 2 (Some 7)) =
     Inl RangeError \<and>
   snd (writeFC3 DropOrphanBrace (\<lambda>i. 0) ModbusRTU 1 0 2 (Some 7)) =
     Inr [1, 3, 0, 0, 0, 2, 0xFA] \<and>
   snd (writeFC3 OpenElseBlock (\<lambda>i. 0) ModbusRTU 1 0 2 (Some 7)) =
     Inr [1, 3, 0, 0, 0, 2, 0xFA]"
proof -
  have 1: "CRC16 [1, 3, 0, 0, 0, 2, 0, 0] 6 = Inr ([1, 3, 0, 0, 0, 2, 0xC4, 0x0B], 0x0BC4)"
    by code_simp
  have 2: "LRC [1, 3, 0, 0, 0, 2, 0] 6 = Inr ([1, 3, 0, 0, 0, 2, 0xFA], 0xFA)"
    by code_simp
  have 3: "snd (writeFC3 DropOrphanBrace (\<lambda>i. 0) (ModbusRTU\<lparr>ascii := JBool False\<rparr>) 1 0 2
                  (Some 7)) = Inr [1, 3, 0, 0, 0, 2, 0xFA]"
    by code_simp
  have 4: "snd (writeFC3 OpenElseBlock (\<lambda>i. 0) (ModbusRTU\<lparr>ascii := JBool False\<rparr>) 1 0 2
                  (Some 7)) = Inr [1, 3, 0, 0, 0, 2, 0xFA, 0]"
    by code_simp
  have 5: "snd (writeFC3 rep (\<lambda>i. 0) (ModbusRTU\<lparr>ascii := JBool True\<rparr>) 1 0 2
                  (Some 7)) = Inl RangeError" for rep
  proof -
    let ?e = "ModbusRTU\<lparr>ascii := JBool True\<rparr>"
    have t: "strict_eq (ascii ?e) True" and f: "\<not> strict_eq (ascii ?e) False"
      by (simp_all add: strict_eq_def)
    have c: "checksum ?e ([1, 3, 0, 0, 0, 2] @ [0]) (int (length [1, 3, 0, 0, 0, 2 :: byte])) =
        Inl RangeError"
      by (rule checksum_crc_throws [OF t])
    have w: "and_then (writeUInt8 (newBuffer (\<lambda>i. 0) 7) 1 0) (\<lambda>buf.
       and_then (writeUInt8 buf 3 1) (\<lambda>buf.
       and_then (writeUInt16BE buf 0 2) (\<lambda>buf.
       and_then (writeUInt16BE buf 2 4) (\<lambda>buf. checksum ?e buf 6)))) =
       checksum ?e [1, 3, 0, 0, 0, 2, 0] 6"
      by (simp add: newBuffer_7 writeUInt8_def writeUInt16BE_def and_then_def)
    show ?thesis
      unfolding writeFC3_def snd_writeFC4 alloc_buf_not_false [OF f]
      using w c by (simp add: default_code_def)
  qed
  have 7: "snd (writeFC3 DropOrphanBrace (\<lambda>i. 0) ModbusRTU 1 0 2 (Some 7)) =
      Inr [1, 3, 0, 0, 0, 2, 0xFA]"
    by code_simp
  have 8: "snd (writeFC3 OpenElseBlock (\<lambda>i. 0) ModbusRTU 1 0 2 (Some 7)) =
      Inr [1, 3, 0, 0, 0, 2, 0xFA]"
    by code_simp
  show ?thesis
    by (intro conjI 1 2 3 4 5 5 7 8)
qed

section \<open>The read-holding-registers scenario\<close>

text \<open>
  Claim C9 does not hold of the code.  The request for two registers of unit 1 is never
  written with a CRC16 (\<^verbatim>\<open>C4 0B\<close>).  On an engine as constructed, and on an engine
  in binary mode (ascii field \<^verbatim>\<open>false\<close>) when the orphan brace is dropped, it is
  \<^verbatim>\<open>01 03 00 00 00 02 FA\<close>, with the LRC, and the expected length is 8; the response
  \<^verbatim>\<open>01 03 04 00 0A 00 0B\<close> with its CRC16 \<^verbatim>\<open>9B F6\<close> has 9 bytes and is rejected
  with a data length error, so nothing is decoded.  In binary mode when the orphan brace
  closes an opened \<^verbatim>\<open>else\<close> block the expected length is 9 and the response is decoded
  to the registers 10 and 11, but the request is the core, the LRC and one byte that was
  never written.  The parser itself, given those bytes, reads byte 2 as the payload length
  and delivers the registers 10 and 11.
\<close>

theorem read_holding_registers_evaluated:
  "CRC16 [1, 3, 0, 0, 0, 2, 0, 0] 6 = Inr ([1, 3, 0, 0, 0, 2, 0xC4, 0x0B], 0x0BC4) \<and>
   CRC16 [1, 3, 4, 0, 0x0A, 0, 0x0B, 0, 0] 7 =
     Inr ([1, 3, 4, 0, 0x0A, 0, 0x0B, 0x9B, 0xF6], 0xF69B) \<and>
   writeFC3 DropOrphanBrace (\<lambda>i. 0) ModbusRTU 1 0 2 (Some 7) =
     (\<lparr>nextAddress = Some 1, nextCode = Some 3, nextLength = 8, next_fn = Some 7,
       unitID = 1, ascii = Undefined\<rparr>,
      Inr [1, 3, 0, 0, 0, 2, 0xFA]) \<and>
   writeFC3 OpenElseBlock (\<lambda>i. 0) ModbusRTU 1 0 2 (Some 7) =
     (\<lparr>nextAddress = Some 1, nextCode = Some 3, nextLength = 8, next_fn = Some 7,
       unitID = 1, ascii = Undefined\<rparr>,
      Inr [1, 3, 0, 0, 0, 2, 0xFA]) \<and>
   calls (on_data \<lparr>nextAddress = Some 1, nextCode = Some 3, nextLength = 8, next_fn = Some 7,
                    unitID = 1, ascii = Undefined\<rparr>
            [1, 3, 4, 0, 0x0A, 0, 0x0B, 0x9B, 0xF6]) =
     [(7, Failure (DataLengthError 8 9))] \<and>
   writeFC3 DropOrphanBrace (\<lambda>i. 0) (ModbusRTU\<lparr>ascii := JBool False\<rparr>) 1 0 2 (Some 7) =
     (\<lparr>nextAddress = Some 1, nextCode = Some 3, nextLength = 8, next_fn = Some 7,
       unitID = 1, ascii = JBool False\<rparr>,
      Inr [1, 3, 0, 0, 0, 2, 0xFA]) \<and>
   calls (on_data \<lparr>nextAddress = Some 1, nextCode = Some 3, nextLength = 8, next_fn = Some 7,
                    unitID = 1, ascii = JBool False\<rparr>
            [1, 3, 4, 0, 0x0A, 0, 0x0B, 0x9B, 0xF6]) =
     [(7, Failure (DataLengthError 8 9))] \<and>
   writeFC3 OpenElseBlock (\<lambda>i. 0) (ModbusRTU\<lparr>ascii := JBool False\<rparr>) 1 0 2 (Some 7) =
     (\<lparr>nextAddress = Some 1, nextCode = Some 3, nextLength = 9, next_fn = Some 7,
       unitID = 1, ascii = JBool False\<rparr>,
      Inr [1, 3, 0, 0, 0, 2, 0xFA, 0]) \<and>
   calls (on_data \<lparr>nextAddress = Some 1, nextCode = Some 3, nextLength = 9, next_fn = Some 7,
                    unitID = 1, ascii = JBool False\<rparr>
            [1, 3, 4, 0, 0x0A, 0, 0x0B, 0x9B, 0xF6]) =
     [(7, Success (Registers [10, 11] [0, 0x0A, 0, 0x0B]))] \<and>
   readFC4 [1, 3, 4, 0, 0x0A, 0, 0x0B, 0x9B, 0xF6] (Some 7) =
     Inr [(7, Success (Registers [10, 11] [0, 0x0A, 0, 0x0B]))]"
proof -
  have 0: "CRC16 [1, 3, 0, 0, 0, 2, 0, 0] 6 = Inr ([1, 3, 0, 0, 0, 2, 0xC4, 0x0B], 0x0BC4)"
    by code_simp
  have 1: "CRC16 [1, 3, 4, 0, 0x0A, 0, 0x0B, 0, 0] 7 =
     Inr ([1, 3, 4, 0, 0x0A, 0, 0x0B, 0x9B, 0xF6], 0xF69B)"
    by code_simp
  have 2: "writeFC3 DropOrphanBrace (\<lambda>i. 0) ModbusRTU 1 0 2 (Some 7) =
     (\<lparr>nextAddress = Some 1, nextCode = Some 3, nextLength = 8, next_fn = Some 7,
       unitID = 1, ascii = Undefined\<rparr>,
      Inr [1, 3, 0, 0, 0, 2, 0xFA])"
    by code_simp
  have 3: "writeFC3 OpenElseBlock (\<lambda>i. 0) ModbusRTU 1 0 2 (Some 7) =
     (\<lparr>nextAddress = Some 1, nextCode = Some 3, nextLength = 8, next_fn = Some 7,
       unitID = 1, ascii = Undefined\<rparr>,
      Inr [1, 3, 0, 0, 0, 2, 0xFA])"
    by code_simp
  have 4: "calls (on_data \<lparr>nextAddress = Some 1, nextCode = Some 3, nextLength = 8,
                    next_fn = Some 7, unitID = 1, ascii = Undefined\<rparr>
            [1, 3, 4, 0, 0x0A, 0, 0x0B, 0x9B, 0xF6]) =
     [(7, Failure (DataLengthError 8 9))]"
    by code_simp
  have 5: "writeFC3 DropOrphanBrace (\<lambda>i. 0) (ModbusRTU\<lparr>ascii := JBool False\<rparr>) 1 0 2 (Some 7) =
     (\<lparr>nextAddress = Some 1, nextCode = Some 3, nextLength = 8, next_fn = Some 7,
       unitID = 1, ascii = JBool False\<rparr>,
      Inr [1, 3, 0, 0, 0, 2, 0xFA])"
    by code_simp
  have 6: "calls (on_data \<lparr>nextAddress = Some 1, nextCode = Some 3, nextLength = 8,
                    next_fn = Some 7, unitID = 1, ascii = JBool False\<rparr>
            [1, 3, 4, 0, 0x0A, 0, 0x0B, 0x9B, 0xF6]) =
     [(7, Failure (DataLengthError 8 9))]"
    by code_simp
  have 7: "writeFC3 OpenElseBlock (\<lambda>i. 0) (ModbusRTU\<lparr>ascii := JBool False\<rparr>) 1 0 2 (Some 7) =
     (\<lparr>nextAddress = Some 1, nextCode = Some 3, nextLength = 9, next_fn = Some 7,
       unitID = 1, ascii = JBool False\<rparr>,
      Inr [1, 3, 0, 0, 0, 2, 0xFA, 0])"
    by code_simp
  have 8: "calls (on_data \<lparr>nextAddress = Some 1, nextCode = Some 3, nextLength = 9,
                    next_fn = Some 7, unitID = 1, ascii = JBool False\<rparr>
            [1, 3, 4, 0, 0x0A, 0, 0x0B, 0x9B, 0xF6]) =
     [(7, Success (Registers [10, 11] [0, 0x0A, 0, 0x0B]))]"
    by code_simp
  have 9: "readFC4 [1, 3, 4, 0, 0x0A, 0, 0x0B, 0x9B, 0xF6] (Some 7) =
     Inr [(7, Success (Registers [10, 11] [0, 0x0A, 0, 0x0B]))]"
    by code_simp
  show ?thesis
    by (intro conjI 0 1 2 3 4 5 6 7 8 9)
qed

theorem read_holding_registers_evaluated_witness:
  "int (length [1, 3, 4, 0, 0x0A, 0, 0x0B, 0x9B, 0xF6 :: byte]) \<noteq> 8 \<and>
   calls (on_data \<lparr>nextAddress = Some 1, nextCode = Some 3, nextLength = 8, next_fn = Some 7,
                    unitID = 1, ascii = Undefined\<rparr>
            [1, 3, 4, 0, 0x0A, 0, 0x0B, 0x9B, 0xF6]) =
     [(7, Failure (DataLengthError 8 9))] \<and>
   calls (on_data \<lparr>nextAddress = Some 1, nextCode = Some 3, nextLength = 8, next_fn = Some 7,
                    unitID = 1, ascii = JBool False\<rparr>
            [1, 3, 4, 0, 0x0A, 0, 0x0B, 0x9B, 0xF6]) =
     [(7, Failure (DataLengthError 8 9))] \<and>
   calls (on_data \<lparr>nextAddress = Some 1, nextCode = Some 3, nextLength = 9, next_fn = Some 7,
                    unitID = 1, ascii = JBool False\<rparr>
            [1, 3, 4, 0, 0x0A, 0, 0x0B, 0x9B, 0xF6]) =
     [(7, Success (Registers [10, 11] [0, 0x0A, 0, 0x0B]))]"
proof -
  note t = read_holding_registers_evaluated
  have 0: "int (length [1, 3, 4, 0, 0x0A, 0, 0x0B, 0x9B, 0xF6 :: byte]) \<noteq> 8"
    by simp
  show ?thesis
    using 0 t by (elim conjE) (intro conjI, assumption+)
qed

section \<open>The reassembler skips the byte after an emitted frame\<close>

text \<open>
  Claim C6 does not hold of the code.  The port has sent a write-single-register request
  for unit 1 and expects 17 bytes.  One chunk brings the response
  \<^verbatim>\<open>:010600010003F5\<close> CR LF twice.  The scan emits the first frame and sets the
  position to 17 (\<^verbatim>\<open>i = i + length\<close>), then the loop's own increment moves it on to
  18, where the loop ends; the prefix of 18 bytes is discarded.  Position 17 was never
  examined, and the window that starts there decodes to a frame that passes
  \<^verbatim>\<open>checkData\<close>: the second response loses its colon and is never emitted.
\<close>

theorem reassembler_skips_byte_evaluated:
  "port_write (\<lambda>i. 0) AsciiBufferedPort [1, 6, 0, 1, 0, 3, 0xF5] =
     (\<lparr>port_buffer = [], port_id = 1, port_cmd = 6, port_length = 17\<rparr>,
      Inr (Some [0x3A, 0x30, 0x31, 0x30, 0x36, 0x30, 0x30, 0x30, 0x31, 0x30, 0x30, 0x30, 0x33,
                 0x46, 0x35, 0x0D, 0x0A])) \<and>
   port_on_data (\<lambda>i. 0) \<lparr>port_buffer = [], port_id = 1, port_cmd = 6, port_length = 17\<rparr>
     ([0x3A, 0x30, 0x31, 0x30, 0x36, 0x30, 0x30, 0x30, 0x31, 0x30, 0x30, 0x30, 0x33, 0x46, 0x35,
       0x0D, 0x0A] @
      [0x3A, 0x30, 0x31, 0x30, 0x36, 0x30, 0x30, 0x30, 0x31, 0x30, 0x30, 0x30, 0x33, 0x46, 0x35,
       0x0D, 0x0A]) =
     (\<lparr>port_buffer = [0x30, 0x31, 0x30, 0x36, 0x30, 0x30, 0x30, 0x31, 0x30, 0x30, 0x30, 0x33,
                       0x46, 0x35, 0x0D, 0x0A],
       port_id = 1, port_cmd = 6, port_length = 17\<rparr>,
      Inr [[1, 6, 0, 1, 0, 3, 0xF5]]) \<and>
   slice ([0x3A, 0x30, 0x31, 0x30, 0x36, 0x30, 0x30, 0x30, 0x31, 0x30, 0x30, 0x30, 0x33, 0x46,
           0x35, 0x0D, 0x0A] @
          [0x3A, 0x30, 0x31, 0x30, 0x36, 0x30, 0x30, 0x30, 0x31, 0x30, 0x30, 0x30, 0x33, 0x46,
           0x35, 0x0D, 0x0A]) 17 34 =
     [0x3A, 0x30, 0x31, 0x30, 0x36, 0x30, 0x30, 0x30, 0x31, 0x30, 0x30, 0x30, 0x33, 0x46, 0x35,
      0x0D, 0x0A] \<and>
   asciiDecodeResponseBuffer (\<lambda>i. 0)
       [0x3A, 0x30, 0x31, 0x30, 0x36, 0x30, 0x30, 0x30, 0x31, 0x30, 0x30, 0x30, 0x33, 0x46, 0x35,
        0x0D, 0x0A] = Inr [1, 6, 0, 1, 0, 3, 0xF5] \<and>
   checkData \<lparr>port_buffer = [], port_id = 1, port_cmd = 6, port_length = 17\<rparr>
       [1, 6, 0, 1, 0, 3, 0xF5] = Inr True \<and>
   port_on_data (\<lambda>i. 0) \<lparr>port_buffer = [], port_id = 1, port_cmd = 6, port_length = 17\<rparr>
     [0x3A, 0x30, 0x31, 0x30, 0x36, 0x30, 0x30, 0x30, 0x31, 0x30, 0x30, 0x30, 0x33, 0x46, 0x35,
      0x0D, 0x0A] =
     (\<lparr>port_buffer = [], port_id = 1, port_cmd = 6, port_length = 17\<rparr>,
      Inr [[1, 6, 0, 1, 0, 3, 0xF5]])"
proof -
  have 1: "port_write (\<lambda>i. 0) AsciiBufferedPort [1, 6, 0, 1, 0, 3, 0xF5] =
     (\<lparr>port_buffer = [], port_id = 1, port_cmd = 6, port_length = 17\<rparr>,
      Inr (Some [0x3A, 0x30, 0x31, 0x30, 0x36, 0x30, 0x30, 0x30, 0x31, 0x30, 0x30, 0x30, 0x33,
                 0x46, 0x35, 0x0D, 0x0A]))"
    by code_simp
  have 2: "port_on_data (\<lambda>i. 0) \<lparr>port_buffer = [], port_id = 1, port_cmd = 6, port_length = 17\<rparr>
     ([0x3A, 0x30, 0x31, 0x30, 0x36, 0x30, 0x30, 0x30, 0x31, 0x30, 0x30, 0x30, 0x33, 0x46, 0x35,
       0x0D, 0x0A] @
      [0x3A, 0x30, 0x31, 0x30, 0x36, 0x30, 0x30, 0x30, 0x31, 0x30, 0x30, 0x30, 0x33, 0x46, 0x35,
       0x0D, 0x0A]) =
     (\<lparr>port_buffer = [0x30, 0x31, 0x30, 0x36, 0x30, 0x30, 0x30, 0x31, 0x30, 0x30, 0x30, 0x33,
                       0x46, 0x35, 0x0D, 0x0A],
       port_id = 1, port_cmd = 6, port_length = 17\<rparr>,
      Inr [[1, 6, 0, 1, 0, 3, 0xF5]])"
    by code_simp
  have 3: "slice ([0x3A, 0x30, 0x31, 0x30, 0x36, 0x30, 0x30, 0x30, 0x31, 0x30, 0x30, 0x30, 0x33,
           0x46, 0x35, 0x0D, 0x0A] @
          [0x3A, 0x30, 0x31, 0x30, 0x36, 0x30, 0x30, 0x30, 0x31, 0x30, 0x30, 0x30, 0x33, 0x46,
           0x35, 0x0D, 0x0A]) 17 34 =
     [0x3A, 0x30, 0x31, 0x30, 0x36, 0x30, 0x30, 0x30, 0x31, 0x30, 0x30, 0x30, 0x33, 0x46, 0x35,
      0x0D, 0x0A :: byte]"
    by code_simp
  have 4: "asciiDecodeResponseBuffer (\<lambda>i. 0)
       [0x3A, 0x30, 0x31, 0x30, 0x36, 0x30, 0x30, 0x30, 0x31, 0x30, 0x30, 0x30, 0x33, 0x46, 0x35,
        0x0D, 0x0A] = Inr [1, 6, 0, 1, 0, 3, 0xF5]"
    by code_simp
  have 5: "checkData \<lparr>port_buffer = [], port_id = 1, port_cmd = 6, port_length = 17\<rparr>
       [1, 6, 0, 1, 0, 3, 0xF5] = Inr True"
    by code_simp
  have 6: "port_on_data (\<lambda>i. 0) \<lparr>port_buffer = [], port_id = 1, port_cmd = 6, port_length = 17\<rparr>
     [0x3A, 0x30, 0x31, 0x30, 0x36, 0x30, 0x30, 0x30, 0x31, 0x30, 0x30, 0x30, 0x33, 0x46, 0x35,
      0x0D, 0x0A] =
     (\<lparr>port_buffer = [], port_id = 1, port_cmd = 6, port_length = 17\<rparr>,
      Inr [[1, 6, 0, 1, 0, 3, 0xF5]])"
    by code_simp
  show ?thesis
    by (intro conjI 1 2 3 4 5 6)
qed

end
